theory Spec2Isabelle
  imports Main "HOL-Library.Sublist"
begin

section \<open>The RIFT stage pipeline: data model\<close>

text \<open>
  The development follows \<^verbatim>\<open>src/poc/rift_sim.c\<close> and its standalone C11 twin
  (\<^verbatim>\<open>src/unnamed/part_000\<close>), with the stage-bound tokenizer of
  \<^verbatim>\<open>src/gov-stage/rift-gov/escape_sequence_handler.txt\<close> where priorities are
  concerned. C strings are \<open>string\<close>s (the bytes before the terminating NUL), a
  \<^verbatim>\<open>NULL\<close> pointer is \<open>None\<close>, a \<^verbatim>\<open>size_t\<close> counter is a \<open>nat\<close> (no
  claim reaches its wrap-around) and allocation is assumed to succeed.
\<close>

datatype token_type_t =
  TOKEN_IDENTIFIER | TOKEN_NUMBER | TOKEN_OPERATOR | TOKEN_WHITESPACE | TOKEN_UNKNOWN

text \<open>\<^verbatim>\<open>rift_token_t\<close>; the \<open>priority\<close> field exists in the stage-bound variant only.\<close>

record rift_token =
  tok_type :: token_type_t
  tok_value :: string
  tok_line :: nat
  tok_column :: nat

datatype ast_node_type_t = AST_IDENTIFIER | AST_NUMBER | AST_BINARY_OP | AST_UNARY_OP

text \<open>
  \<^verbatim>\<open>ast_node_t\<close>: type, value and the two owned child pointers. The parser always
  passes a non-null value to \<^verbatim>\<open>create_ast_node\<close>, so the value is a plain string.
\<close>

datatype ast_node =
  Node (node_type: ast_node_type_t) (node_value: string)
       (node_left: "ast_node option") (node_right: "ast_node option")

section \<open>RIFT-1: the recursive-descent parser\<close>

text \<open>
  \<^verbatim>\<open>rift_parser_t\<close>: the token stream and the cursor. (Its governance pointer is never
  read by the parsing functions and is left out.)
\<close>

record rift_parser =
  input_tokens :: "rift_token list"
  current_position :: nat

definition create_ast_node :: "ast_node_type_t \<Rightarrow> string \<Rightarrow> ast_node" where
  "create_ast_node ty v = Node ty v None None"

definition current_token :: "rift_parser \<Rightarrow> rift_token option" where
  "current_token parser =
     (if current_position parser \<ge> length (input_tokens parser) then None
      else Some (input_tokens parser ! current_position parser))"

definition advance_token :: "rift_parser \<Rightarrow> rift_parser" where
  "advance_token parser =
     (if current_position parser < length (input_tokens parser)
      then parser\<lparr>current_position := current_position parser + 1\<rparr>
      else parser)"

definition parse_factor :: "rift_parser \<Rightarrow> ast_node option \<times> rift_parser" where
  "parse_factor parser =
     (case current_token parser of
        None \<Rightarrow> (None, parser)
      | Some token \<Rightarrow>
          if tok_type token = TOKEN_IDENTIFIER
          then (Some (create_ast_node AST_IDENTIFIER (tok_value token)), advance_token parser)
          else if tok_type token = TOKEN_NUMBER
          then (Some (create_ast_node AST_NUMBER (tok_value token)), advance_token parser)
          else (None, parser))"

text \<open>How far the cursor is from the end of the stream: the loops' termination measure.\<close>

definition remaining :: "rift_parser \<Rightarrow> nat" where
  "remaining parser = length (input_tokens parser) - current_position parser"

lemma remaining_advance:
  "current_token parser = Some t \<Longrightarrow> remaining (advance_token parser) < remaining parser"
  by (auto simp: current_token_def advance_token_def remaining_def split: if_splits)

lemma remaining_parse_factor:
  "parse_factor parser = (r, parser') \<Longrightarrow> remaining parser' \<le> remaining parser"
  by (auto simp: parse_factor_def advance_token_def remaining_def
           split: option.splits if_splits)

lemma parse_factor_step:
  "current_token parser = Some t \<Longrightarrow> (r, parser') = parse_factor (advance_token parser) \<Longrightarrow>
   remaining parser' < remaining parser"
  using remaining_parse_factor [of "advance_token parser" r parser'] remaining_advance [of parser t]
  by simp

text \<open>
  The \<^verbatim>\<open>while\<close> loop of \<^verbatim>\<open>parse_term\<close>: \<open>left\<close> is the loop variable, the parser
  state is threaded through. The new node is the one \<^verbatim>\<open>create_ast_node\<close> returns for
  the operator, with \<open>left\<close> and \<open>right\<close> assigned to its child pointers.
\<close>

function parse_term_loop :: "ast_node option \<Rightarrow> rift_parser \<Rightarrow> ast_node option \<times> rift_parser" where
  "parse_term_loop left parser =
     (case current_token parser of
        None \<Rightarrow> (left, parser)
      | Some t \<Rightarrow>
          if tok_type t = TOKEN_OPERATOR \<and> (tok_value t = ''*'' \<or> tok_value t = ''/'')
          then (case parse_factor (advance_token parser) of
                  (right, parser') \<Rightarrow>
                    parse_term_loop (Some (Node AST_BINARY_OP (tok_value t) left right)) parser')
          else (left, parser))"
  by pat_completeness auto
termination
  by (relation "measure (\<lambda>(left, parser). remaining parser)")
     (auto dest: parse_factor_step)

declare parse_term_loop.simps [simp del]

definition parse_term :: "rift_parser \<Rightarrow> ast_node option \<times> rift_parser" where
  "parse_term parser = (case parse_factor parser of (left, parser') \<Rightarrow> parse_term_loop left parser')"

lemma remaining_parse_term_loop:
  "parse_term_loop left parser = (r, parser') \<Longrightarrow> remaining parser' \<le> remaining parser"
proof (induction left parser arbitrary: r parser' rule: parse_term_loop.induct)
  case (1 left parser)
  show ?case
  proof (cases "current_token parser")
    case None
    with "1.prems" show ?thesis by (simp add: parse_term_loop.simps [of left parser])
  next
    case (Some t)
    show ?thesis
    proof (cases "tok_type t = TOKEN_OPERATOR \<and> (tok_value t = ''*'' \<or> tok_value t = ''/'')")
      case False
      with Some "1.prems" show ?thesis by (simp add: parse_term_loop.simps [of left parser])
    next
      case True
      obtain right p1 where pf: "parse_factor (advance_token parser) = (right, p1)"
        by (cases "parse_factor (advance_token parser)")
      from Some True pf "1.prems"
      have "parse_term_loop (Some (Node AST_BINARY_OP (tok_value t) left right)) p1 = (r, parser')"
        by (simp add: parse_term_loop.simps [of left parser])
      from "1.IH" [OF Some True pf [symmetric] this]
      have "remaining parser' \<le> remaining p1" .
      moreover have "remaining p1 \<le> remaining (advance_token parser)"
        using remaining_parse_factor [OF pf] .
      moreover have "remaining (advance_token parser) < remaining parser"
        using remaining_advance [OF Some] .
      ultimately show ?thesis by simp
    qed
  qed
qed

lemma remaining_parse_term:
  "parse_term parser = (r, parser') \<Longrightarrow> remaining parser' \<le> remaining parser"
proof -
  assume pt: "parse_term parser = (r, parser')"
  obtain left p1 where pf: "parse_factor parser = (left, p1)"
    by (cases "parse_factor parser")
  with pt have "parse_term_loop left p1 = (r, parser')"
    by (simp add: parse_term_def)
  then have "remaining parser' \<le> remaining p1"
    by (rule remaining_parse_term_loop)
  with remaining_parse_factor [OF pf] show ?thesis by simp
qed

lemma parse_term_step:
  "current_token parser = Some t \<Longrightarrow> (r, parser') = parse_term (advance_token parser) \<Longrightarrow>
   remaining parser' < remaining parser"
  using remaining_parse_term [of "advance_token parser" r parser'] remaining_advance [of parser t]
  by simp

text \<open>The \<^verbatim>\<open>while\<close> loop of \<^verbatim>\<open>parse_expression\<close>.\<close>

function parse_expression_loop :: "ast_node option \<Rightarrow> rift_parser \<Rightarrow> ast_node option \<times> rift_parser" where
  "parse_expression_loop left parser =
     (case current_token parser of
        None \<Rightarrow> (left, parser)
      | Some t \<Rightarrow>
          if tok_type t = TOKEN_OPERATOR \<and> (tok_value t = ''+'' \<or> tok_value t = ''-'')
          then (case parse_term (advance_token parser) of
                  (right, parser') \<Rightarrow>
                    parse_expression_loop (Some (Node AST_BINARY_OP (tok_value t) left right)) parser')
          else (left, parser))"
  by pat_completeness auto
termination
  by (relation "measure (\<lambda>(left, parser). remaining parser)")
     (auto dest: parse_term_step)

declare parse_expression_loop.simps [simp del]

definition parse_expression :: "rift_parser \<Rightarrow> ast_node option \<times> rift_parser" where
  "parse_expression parser =
     (case parse_term parser of (left, parser') \<Rightarrow> parse_expression_loop left parser')"

text \<open>
  \<^verbatim>\<open>rift_parse\<close> installs the stream, resets the cursor and returns the root (absent when
  \<^verbatim>\<open>parse_expression\<close> returns \<^verbatim>\<open>NULL\<close>), together with the parser as it leaves it.
\<close>

definition rift_parse :: "rift_parser \<Rightarrow> rift_token list \<Rightarrow> ast_node option \<times> rift_parser" where
  "rift_parse parser tokens =
     parse_expression (parser\<lparr>input_tokens := tokens, current_position := 0\<rparr>)"

section \<open>Governance\<close>

text \<open>
  \<^verbatim>\<open>rift_config_entry_t\<close> and \<^verbatim>\<open>rift_governance_t\<close>. The entry array with its
  \<^verbatim>\<open>count\<close> is a list (\<open>count\<close> is its length); entries are appended at index
  \<^verbatim>\<open>count++\<close>.
\<close>

record rift_config_entry =
  pattern :: string
  intention :: string
  sp_alignment :: string

record rift_governance =
  entries :: "rift_config_entry list"
  capacity :: nat

section \<open>RIFT-2: the AST coordinator\<close>

record rift_ast_coordinator =
  root :: "ast_node option"
  governance :: rift_governance
  node_count :: nat
  optimization_passes :: nat

fun count_ast_nodes :: "ast_node option \<Rightarrow> nat" where
  "count_ast_nodes None = 0"
| "count_ast_nodes (Some (Node ty v l r)) = 1 + count_ast_nodes l + count_ast_nodes r"

text \<open>
  \<^verbatim>\<open>rift_coordinate_ast\<close> returns the root it was given and the coordinator as it leaves
  it (its progress lines on the console are not modelled).
\<close>

definition rift_coordinate_ast ::
  "rift_ast_coordinator \<Rightarrow> ast_node option \<Rightarrow> ast_node option \<times> rift_ast_coordinator" where
  "rift_coordinate_ast coordinator ast =
     (ast, coordinator\<lparr>root := ast, node_count := count_ast_nodes ast\<rparr>)"

section \<open>RIFT-3: the output stage\<close>

record rift_output_stage =
  out_ast :: "ast_node option"
  out_governance :: rift_governance
  output_format :: string

text \<open>The indentation loop: one \<^verbatim>\<open>printf("  ")\<close> per level.\<close>

fun print_indent :: "nat \<Rightarrow> string" where
  "print_indent 0 = []"
| "print_indent (Suc i) = ''  '' @ print_indent i"

text \<open>\<^verbatim>\<open>print_ast_recursive\<close>, as the text it writes to standard output.\<close>

fun print_ast_recursive :: "ast_node option \<Rightarrow> nat \<Rightarrow> string" where
  "print_ast_recursive None indent = []"
| "print_ast_recursive (Some (Node ty v l r)) indent =
     print_indent indent @
     (case ty of
        AST_IDENTIFIER \<Rightarrow> ''(Identifier '' @ v @ '')\<newline>''
      | AST_NUMBER \<Rightarrow> ''(Number '' @ v @ '')\<newline>''
      | AST_BINARY_OP \<Rightarrow>
          ''(BinOp '' @ v @ ''\<newline>'' @
          print_ast_recursive l (indent + 1) @
          print_ast_recursive r (indent + 1) @
          print_indent indent @ '')\<newline>''
      | AST_UNARY_OP \<Rightarrow> ''(Unknown)\<newline>'')"

definition rift_print_stage_info :: "string \<Rightarrow> string \<Rightarrow> string" where
  "rift_print_stage_info stage message = ''\<newline>['' @ stage @ ''] '' @ message @ ''\<newline>''"

text \<open>The arrow of the progress lines, U+2192 in UTF-8.\<close>

definition arrow :: string where
  "arrow = [CHR 0xE2, CHR 0x86, CHR 0x92]"

text \<open>
  The progress lines \<^verbatim>\<open>rift_generate_output\<close> prints before the tree: the stage banner,
  the format and the heading.
\<close>

definition output_narration :: "string \<Rightarrow> string" where
  "output_narration fmt =
     rift_print_stage_info ''RIFT-3'' ''Generating final output'' @
     ''  '' @ arrow @ '' Output format: '' @ fmt @ ''\<newline>'' @
     ''  '' @ arrow @ '' Final AST structure:\<newline>''"

definition rift_generate_output ::
  "rift_output_stage \<Rightarrow> ast_node option \<Rightarrow> rift_output_stage \<times> string" where
  "rift_generate_output output ast =
     (output\<lparr>out_ast := ast\<rparr>,
      output_narration (output_format output) @
      ''(AST\<newline>'' @ print_ast_recursive ast 1 @ '')\<newline>'')"

section \<open>The demonstration input\<close>

text \<open>
  The token stream of \<^verbatim>\<open>"x + 2 * y"\<close>: Identifier x, Operator +, Number 2, Operator *,
  Identifier y, on line 1, the column being the 1-based position in the stream.
\<close>

definition x_plus_2_times_y :: "rift_token list" where
  "x_plus_2_times_y =
     [\<lparr>tok_type = TOKEN_IDENTIFIER, tok_value = ''x'', tok_line = 1, tok_column = 1\<rparr>,
      \<lparr>tok_type = TOKEN_OPERATOR, tok_value = ''+'', tok_line = 1, tok_column = 2\<rparr>,
      \<lparr>tok_type = TOKEN_NUMBER, tok_value = ''2'', tok_line = 1, tok_column = 3\<rparr>,
      \<lparr>tok_type = TOKEN_OPERATOR, tok_value = ''*'', tok_line = 1, tok_column = 4\<rparr>,
      \<lparr>tok_type = TOKEN_IDENTIFIER, tok_value = ''y'', tok_line = 1, tok_column = 5\<rparr>]"

definition x_plus_2_times_y_tree :: ast_node where
  "x_plus_2_times_y_tree =
     Node AST_BINARY_OP ''+''
       (Some (Node AST_IDENTIFIER ''x'' None None))
       (Some (Node AST_BINARY_OP ''*''
          (Some (Node AST_NUMBER ''2'' None None))
          (Some (Node AST_IDENTIFIER ''y'' None None))))"

section \<open>The C library's regular expressions\<close>

text \<open>
  \<^verbatim>\<open>regcomp\<close> and \<^verbatim>\<open>regexec\<close> belong to the C library, not to the repository: the
  pipeline takes them as a parameter. \<open>regcomp\<close> returns the compiled expression, or
  \<open>None\<close> where the C function returns non-zero; \<open>regexec\<close> returns the C function's
  result, 0 for a match.
\<close>

record 're regex_lib =
  regcomp :: "string \<Rightarrow> 're option"
  regexec :: "'re \<Rightarrow> string \<Rightarrow> int"

text \<open>\<^verbatim>\<open>matches_pattern\<close> of the pipeline (\<^verbatim>\<open>pattern_matches\<close> of the stage-bound variant).\<close>

definition matches_pattern :: "'re regex_lib \<Rightarrow> string \<Rightarrow> string \<Rightarrow> bool" where
  "matches_pattern lib pat text =
     (case regcomp lib pat of
        None \<Rightarrow> False
      | Some regex \<Rightarrow> regexec lib regex text = 0)"

text \<open>\<^verbatim>\<open>State\<close> and \<^verbatim>\<open>state_matches\<close> of \<^verbatim>\<open>src/gov-process/rift_poc.c\<close>.\<close>

record poc_state =
  poc_pattern :: string
  poc_is_final :: bool
  poc_id :: nat

definition state_matches :: "'re regex_lib \<Rightarrow> poc_state option \<Rightarrow> string option \<Rightarrow> bool" where
  "state_matches lib state text =
     (case state of
        None \<Rightarrow> False
      | Some st \<Rightarrow>
          (case text of
             None \<Rightarrow> False
           | Some t \<Rightarrow>
               (case regcomp lib (poc_pattern st) of
                  None \<Rightarrow> False
                | Some regex \<Rightarrow> regexec lib regex t = 0)))"

subsection \<open>POSIX extended regular expressions, the modelled part\<close>

text \<open>
  For concrete inputs the library is instantiated with \<^verbatim>\<open>regcomp(REG_EXTENDED)\<close> and
  \<^verbatim>\<open>regexec\<close> (no flags, C locale) on the patterns made of

  \<^item> ordinary characters, \<^verbatim>\<open>.\<close>, and a backslash before a special character;

  \<^item> bracket expressions of characters and ranges: a leading \<^verbatim>\<open>^\<close> negates, a
    \<^verbatim>\<open>]\<close> that comes first is a member and may begin a range, a \<^verbatim>\<open>-\<close> is a member
    when it comes first or last;

  \<^item> the escapes \<^verbatim>\<open>\w\<close>, \<^verbatim>\<open>\W\<close>, \<^verbatim>\<open>\s\<close> and \<^verbatim>\<open>\S\<close> as glibc and musl
    read them: word characters are the letters, the digits and \<^verbatim>\<open>_\<close>, spaces are the C
    locale's \<^verbatim>\<open>isspace\<close> set;

  \<^item> the anchors \<^verbatim>\<open>^\<close> and \<^verbatim>\<open>$\<close>;

  \<^item> the duplication symbols \<^verbatim>\<open>*\<close>, \<^verbatim>\<open>+\<close>, \<^verbatim>\<open>?\<close> after one of the
    single-character items above;

  \<^item> alternation \<^verbatim>\<open>|\<close> between non-empty branches, outside brackets.

  \<^verbatim>\<open>regexec\<close> searches: it returns 0 when some branch matches a substring starting
  anywhere in the text, \<^verbatim>\<open>^\<close> matching only before the first character and \<^verbatim>\<open>$\<close>
  only after the last, and \<^verbatim>\<open>REG_NOMATCH\<close> (1) otherwise.

  Every other pattern is outside the model: groups, intervals, back-references, character
  classes and collating symbols, other escapes (\<^verbatim>\<open>\d\<close> among them), a duplication
  symbol that does not follow a single-character item, an empty branch, a range whose ends
  are reversed, a \<^verbatim>\<open>-\<close> elsewhere in a bracket, an unterminated bracket. For these
  \<open>parse_ere\<close> returns \<open>None\<close> and the library's answer is left unspecified
  (\<open>unmodelled_regcomp\<close>, \<open>unmodelled_regexec\<close>): no statement about such a pattern
  follows from the model.
\<close>

datatype re_atom = Ordinary char | AnyChar | Bracket bool "(char \<times> char) list" | Bol | Eol
datatype re_dup = Once | Star | Plus | Opt
type_synonym re_branch = "(re_atom \<times> re_dup) list"
type_synonym regex_t = "re_branch list"

fun in_range :: "char \<Rightarrow> char \<times> char \<Rightarrow> bool" where
  "in_range x (lo, hi) = ((of_char lo :: nat) \<le> of_char x \<and> (of_char x :: nat) \<le> of_char hi)"

fun atom_matches :: "re_atom \<Rightarrow> char \<Rightarrow> bool" where
  "atom_matches (Ordinary c) x = (x = c)"
| "atom_matches AnyChar x = True"
| "atom_matches (Bracket negated items) x = (negated \<noteq> list_ex (in_range x) items)"
| "atom_matches Bol x = False"
| "atom_matches Eol x = False"

text \<open>
  \<open>match_here b r s\<close>: the branch \<open>r\<close> matches a prefix of \<open>s\<close>, where \<open>b\<close> says
  that \<open>s\<close> begins at the first character of the text. \<open>re_search\<close> tries every
  starting position, \<open>re_search_any\<close> every branch.
\<close>

fun match_here :: "bool \<Rightarrow> re_branch \<Rightarrow> string \<Rightarrow> bool" where
  "match_here b [] s = True"
| "match_here b ((Bol, d) # r) s = (b \<and> match_here b r s)"
| "match_here b ((Eol, d) # r) s = (s = [] \<and> match_here b r s)"
| "match_here b ((a, Once) # r) s =
     (case s of [] \<Rightarrow> False | c # cs \<Rightarrow> atom_matches a c \<and> match_here False r cs)"
| "match_here b ((a, Opt) # r) s =
     (match_here b r s \<or>
      (case s of [] \<Rightarrow> False | c # cs \<Rightarrow> atom_matches a c \<and> match_here False r cs))"
| "match_here b ((a, Star) # r) s =
     (match_here b r s \<or>
      (case s of [] \<Rightarrow> False | c # cs \<Rightarrow> atom_matches a c \<and> match_here False ((a, Star) # r) cs))"
| "match_here b ((a, Plus) # r) s =
     (case s of [] \<Rightarrow> False | c # cs \<Rightarrow> atom_matches a c \<and> match_here False ((a, Star) # r) cs)"

fun re_search :: "re_branch \<Rightarrow> bool \<Rightarrow> string \<Rightarrow> bool" where
  "re_search r b [] = match_here b r []"
| "re_search r b (c # cs) = (match_here b r (c # cs) \<or> re_search r False cs)"

definition re_search_any :: "regex_t \<Rightarrow> string \<Rightarrow> bool" where
  "re_search_any branches s = list_ex (\<lambda>r. re_search r True s) branches"

text \<open>
  The parser. \<open>parse_items first s acc\<close> reads the members of a bracket expression up to
  the closing \<^verbatim>\<open>]\<close>; \<open>first\<close> holds at the first member only.
\<close>

definition class_opener :: "string \<Rightarrow> bool" where
  "class_opener s = (case s of
      c # d # ds \<Rightarrow> c = CHR ''['' \<and> (d = CHR ''.'' \<or> d = CHR ''='' \<or> d = CHR '':'')
    | _ \<Rightarrow> False)"

fun parse_items :: "bool \<Rightarrow> string \<Rightarrow> (char \<times> char) list \<Rightarrow> ((char \<times> char) list \<times> string) option" where
  "parse_items first [] acc = None"
| "parse_items first (c # m # d # ds) acc =
     (if c = CHR '']'' \<and> \<not> first then Some (rev acc, m # d # ds)
      else if class_opener (c # m # d # ds) then None
      else if c = CHR ''-'' \<and> \<not> first \<and> m \<noteq> CHR '']'' then None
      else if m = CHR ''-'' \<and> d \<noteq> CHR '']''
      then (if class_opener (d # ds) then None
            else if (of_char d :: nat) < of_char c then None
            else parse_items False ds ((c, d) # acc))
      else parse_items False (m # d # ds) ((c, c) # acc))"
| "parse_items first (c # cs) acc =
     (if c = CHR '']'' \<and> \<not> first then Some (rev acc, cs)
      else if class_opener (c # cs) then None
      else parse_items False cs ((c, c) # acc))"

definition parse_bracket :: "string \<Rightarrow> (re_atom \<times> string) option" where
  "parse_bracket s =
     (let negated = (s \<noteq> [] \<and> hd s = CHR ''^'');
          s1 = (if negated then tl s else s)
      in map_option (\<lambda>(items, rest). (Bracket negated items, rest)) (parse_items True s1 []))"

lemma parse_items_shorter:
  "parse_items first s acc = Some (items, rest) \<Longrightarrow> length rest < length s"
  by (induction first s acc rule: parse_items.induct) (auto split: if_splits)

lemma parse_bracket_shorter:
  assumes "parse_bracket s = Some (atom, rest)"
  shows "length rest < Suc (length s)"
proof -
  define negated where "negated = (s \<noteq> [] \<and> hd s = CHR ''^'')"
  define s1 where "s1 = (if negated then tl s else s)"
  have s1: "length s1 \<le> length s" by (simp add: s1_def)
  from assms obtain items where "parse_items True s1 [] = Some (items, rest)"
    by (auto simp: parse_bracket_def Let_def negated_def s1_def simp del: parse_items.simps
             split: if_splits)
  with parse_items_shorter [of True s1 "[]" items rest] s1 show ?thesis by simp
qed

definition ordinary :: "char \<Rightarrow> bool" where
  "ordinary c = (c \<notin> set ''.[()*+?{|^$'' \<and> c \<noteq> CHR 0x5C)"

definition atom_of :: "char \<Rightarrow> re_atom" where
  "atom_of c = (if c = CHR ''^'' then Bol else if c = CHR ''$'' then Eol
                else if c = CHR ''.'' then AnyChar else Ordinary c)"

definition dup_of :: "char \<Rightarrow> re_dup" where
  "dup_of c = (if c = CHR ''*'' then Star else if c = CHR ''+'' then Plus else Opt)"

definition word_items :: "(char \<times> char) list" where
  "word_items = [(CHR ''a'', CHR ''z''), (CHR ''A'', CHR ''Z''), (CHR ''0'', CHR ''9''),
                 (CHR ''_'', CHR ''_'')]"

definition space_items :: "(char \<times> char) list" where
  "space_items = [(CHR '' '', CHR '' ''), (CHR 0x09, CHR 0x0D)]"

definition escape_atom :: "char \<Rightarrow> re_atom option" where
  "escape_atom e =
     (if e = CHR ''w'' then Some (Bracket False word_items)
      else if e = CHR ''W'' then Some (Bracket True word_items)
      else if e = CHR ''s'' then Some (Bracket False space_items)
      else if e = CHR ''S'' then Some (Bracket True space_items)
      else if ordinary e then None
      else Some (Ordinary e))"

function parse_ere :: "string \<Rightarrow> re_branch \<Rightarrow> regex_t option" where
  "parse_ere [] acc = Some [rev acc]"
| "parse_ere (c # cs) acc =
     (if c = CHR ''*'' \<or> c = CHR ''+'' \<or> c = CHR ''?''
      then (case acc of
              (a, Once) # acc' \<Rightarrow>
                if a = Bol \<or> a = Eol then None else parse_ere cs ((a, dup_of c) # acc')
            | _ \<Rightarrow> None)
      else if c = CHR ''[''
      then (case parse_bracket cs of
              None \<Rightarrow> None
            | Some (atom, rest) \<Rightarrow> parse_ere rest ((atom, Once) # acc))
      else if c = CHR 0x5C
      then (case cs of
              [] \<Rightarrow> None
            | e # es \<Rightarrow>
                (case escape_atom e of
                   None \<Rightarrow> None
                 | Some a \<Rightarrow> parse_ere es ((a, Once) # acc)))
      else if c = CHR ''|''
      then (if acc = [] \<or> cs = [] \<or> hd cs = CHR ''|'' then None
            else map_option (Cons (rev acc)) (parse_ere cs []))
      else if c = CHR ''('' \<or> c = CHR '')'' \<or> c = CHR ''{''
      then None
      else parse_ere cs ((atom_of c, Once) # acc))"
  by pat_completeness auto
termination
  by (relation "measure (\<lambda>(s, acc). length s)") (auto dest: parse_bracket_shorter)

text \<open>
  The compiled expression is the parsed pattern, or the pattern itself when it is outside
  the model; what the library does with the latter is not specified.
\<close>

datatype posix_regex = Modelled regex_t | Unmodelled string

definition unmodelled_regcomp :: "string \<Rightarrow> bool" where
  "unmodelled_regcomp = undefined"

definition unmodelled_regexec :: "string \<Rightarrow> string \<Rightarrow> int" where
  "unmodelled_regexec = undefined"

definition posix_regcomp :: "string \<Rightarrow> posix_regex option" where
  "posix_regcomp p =
     (case parse_ere p [] of
        Some r \<Rightarrow> Some (Modelled r)
      | None \<Rightarrow> if unmodelled_regcomp p then Some (Unmodelled p) else None)"

definition posix_regexec :: "posix_regex \<Rightarrow> string \<Rightarrow> int" where
  "posix_regexec regex s =
     (case regex of
        Modelled r \<Rightarrow> if re_search_any r s then 0 else 1
      | Unmodelled p \<Rightarrow> unmodelled_regexec p s)"

definition posix_lib :: "posix_regex regex_lib" where
  "posix_lib = \<lparr>regcomp = posix_regcomp, regexec = posix_regexec\<rparr>"

subsection \<open>A pattern matching an entire string\<close>

text \<open>
  What "the pattern matches the entire string" means in the statements, for a branch
  without anchors: the string splits into consecutive pieces, one for each item of the
  branch, each piece made of characters the item matches, as many as its duplication
  symbol allows.
\<close>

definition anchor_free :: "re_branch \<Rightarrow> bool" where
  "anchor_free r = list_all (\<lambda>(a, d). a \<noteq> Bol \<and> a \<noteq> Eol) r"

fun dup_allows :: "re_dup \<Rightarrow> nat \<Rightarrow> bool" where
  "dup_allows Once n = (n = 1)"
| "dup_allows Opt n = (n \<le> 1)"
| "dup_allows Star n = True"
| "dup_allows Plus n = (1 \<le> n)"

fun full_match :: "re_branch \<Rightarrow> string \<Rightarrow> bool" where
  "full_match [] s = (s = [])"
| "full_match ((a, d) # r) s =
     list_ex (\<lambda>n. dup_allows d n \<and> list_all (atom_matches a) (take n s) \<and> full_match r (drop n s))
       [0..<Suc (length s)]"

section \<open>Governance lookup\<close>

text \<open>
  The loop of \<^verbatim>\<open>rift_get_config_value\<close>, from index 0 upwards, returning at the first
  entry whose intention is the key.
\<close>

fun get_config_loop :: "rift_config_entry list \<Rightarrow> string \<Rightarrow> string option" where
  "get_config_loop [] key = None"
| "get_config_loop (e # es) key =
     (if intention e = key then Some (pattern e) else get_config_loop es key)"

definition rift_get_config_value :: "rift_governance \<Rightarrow> string \<Rightarrow> string option" where
  "rift_get_config_value gov key = get_config_loop (entries gov) key"

definition backslash :: char where
  "backslash = CHR 0x5C"

text \<open>
  \<^verbatim>\<open>rift_load_governance\<close>: the three entries it stores, each at index \<^verbatim>\<open>count++\<close>
  (its argument is not read).
\<close>

definition rift_load_governance :: rift_governance where
  "rift_load_governance =
     \<lparr>entries =
        [\<lparr>pattern = ''^[a-zA-Z_]'' @ [backslash] @ ''w*$'',
          intention = ''IDENTIFIER_RECOGNITION'', sp_alignment = ''STAGE_0_TOKENIZER''\<rparr>,
         \<lparr>pattern = ''^'' @ [backslash] @ ''d+$'',
          intention = ''NUMBER_RECOGNITION'', sp_alignment = ''STAGE_0_TOKENIZER''\<rparr>,
         \<lparr>pattern = ''^[+'' @ [backslash] @ ''-*/]$'',
          intention = ''OPERATOR_RECOGNITION'', sp_alignment = ''STAGE_0_TOKENIZER''\<rparr>],
      capacity = 10\<rparr>"

text \<open>
  The stage-bound store of \<^verbatim>\<open>escape_sequence_handler.txt\<close>: \<^verbatim>\<open>config_section_t\<close> with
  \<^verbatim>\<open>config_section_add\<close> (append, doubling the capacity when full) and
  \<^verbatim>\<open>config_section_get\<close> (first pair whose key matches). Sections and keys are taken
  non-null.
\<close>

record config_section =
  pairs :: "(string \<times> string) list"
  section_capacity :: nat

definition config_section_create :: config_section where
  "config_section_create = \<lparr>pairs = [], section_capacity = 10\<rparr>"

definition config_section_add :: "config_section \<Rightarrow> string \<Rightarrow> string \<Rightarrow> config_section" where
  "config_section_add sec key v =
     (let sec1 = (if length (pairs sec) \<ge> section_capacity sec
                  then sec\<lparr>section_capacity := section_capacity sec * 2\<rparr> else sec)
      in sec1\<lparr>pairs := pairs sec1 @ [(key, v)]\<rparr>)"

fun section_get_loop :: "(string \<times> string) list \<Rightarrow> string \<Rightarrow> string option" where
  "section_get_loop [] key = None"
| "section_get_loop ((k, v) # ps) key = (if k = key then Some v else section_get_loop ps key)"

definition config_section_get :: "config_section \<Rightarrow> string \<Rightarrow> string option" where
  "config_section_get sec key = section_get_loop (pairs sec) key"

section \<open>RIFT-0: the tokenizer\<close>

record rift_state =
  st_pattern :: string
  st_type :: token_type_t
  st_is_final :: bool
  st_id :: nat

text \<open>
  \<^verbatim>\<open>rift_tokenizer_t\<close>: the state array (\<^verbatim>\<open>state_count\<close> is its length) and the
  governance it was built from.
\<close>

record rift_tokenizer =
  states :: "rift_state list"
  tokenizer_governance :: rift_governance

text \<open>
  \<^verbatim>\<open>rift_tokenizer_create\<close>: four final states, the first three with the patterns the
  governance holds, the fourth with the whitespace pattern. Where a key is missing the C
  code passes \<^verbatim>\<open>NULL\<close> to \<^verbatim>\<open>strdup\<close>; that is \<open>None\<close> here.
\<close>

definition rift_tokenizer_create :: "rift_governance \<Rightarrow> rift_tokenizer option" where
  "rift_tokenizer_create gov =
     (case rift_get_config_value gov ''IDENTIFIER_RECOGNITION'' of
        None \<Rightarrow> None
      | Some p0 \<Rightarrow>
     (case rift_get_config_value gov ''NUMBER_RECOGNITION'' of
        None \<Rightarrow> None
      | Some p1 \<Rightarrow>
     (case rift_get_config_value gov ''OPERATOR_RECOGNITION'' of
        None \<Rightarrow> None
      | Some p2 \<Rightarrow>
          Some \<lparr>states =
                  [\<lparr>st_pattern = p0, st_type = TOKEN_IDENTIFIER, st_is_final = True, st_id = 0\<rparr>,
                   \<lparr>st_pattern = p1, st_type = TOKEN_NUMBER, st_is_final = True, st_id = 1\<rparr>,
                   \<lparr>st_pattern = p2, st_type = TOKEN_OPERATOR, st_is_final = True, st_id = 2\<rparr>,
                   \<lparr>st_pattern = ''^'' @ [backslash] @ ''s+$'', st_type = TOKEN_WHITESPACE,
                    st_is_final = True, st_id = 3\<rparr>],
                tokenizer_governance = gov\<rparr>)))"

text \<open>
  \<^verbatim>\<open>strtok\<close> with the delimiter string \<^verbatim>\<open>" "\<close>, as the list of the tokens its
  successive calls return: skip the leading spaces, stop when nothing is left, else take
  the characters up to the next space and go on behind them.
\<close>

lemma strtok_measure:
  assumes "dropWhile (\<lambda>c. c = CHR '' '') s \<noteq> []"
  shows "length (dropWhile (\<lambda>c. c \<noteq> CHR '' '') (dropWhile (\<lambda>c. c = CHR '' '') s)) < length s"
proof -
  obtain c cs where cs: "dropWhile (\<lambda>c. c = CHR '' '') s = c # cs"
    using assms by (cases "dropWhile (\<lambda>c. c = CHR '' '') s") simp_all
  have "c \<noteq> CHR '' ''"
    using hd_dropWhile [OF assms] unfolding cs by simp
  then have "length (dropWhile (\<lambda>c. c \<noteq> CHR '' '') (c # cs)) \<le> length cs"
    by (simp add: length_dropWhile_le)
  moreover have "length (c # cs) \<le> length s"
    unfolding cs [symmetric] by (rule length_dropWhile_le)
  ultimately show ?thesis
    unfolding cs by simp
qed

function strtok_all :: "string \<Rightarrow> string list" where
  "strtok_all s =
     (let s1 = dropWhile (\<lambda>c. c = CHR '' '') s
      in if s1 = [] then []
         else takeWhile (\<lambda>c. c \<noteq> CHR '' '') s1 # strtok_all (dropWhile (\<lambda>c. c \<noteq> CHR '' '') s1))"
  by pat_completeness auto
termination
  by (relation "measure length") (simp_all del: dropWhile_eq_Nil_conv add: strtok_measure)

declare strtok_all.simps [simp del]

text \<open>
  The classification loop of \<^verbatim>\<open>rift_tokenize\<close>: the type is \<^verbatim>\<open>TOKEN_UNKNOWN\<close> on
  entry; the first state whose pattern matches sets it and leaves the loop.
\<close>

fun classify_loop :: "'re regex_lib \<Rightarrow> rift_state list \<Rightarrow> string \<Rightarrow> token_type_t \<Rightarrow> token_type_t" where
  "classify_loop lib [] token_str ty = ty"
| "classify_loop lib (st # sts) token_str ty =
     (if matches_pattern lib (st_pattern st) token_str then st_type st
      else classify_loop lib sts token_str ty)"

text \<open>\<^verbatim>\<open>token_stream_t\<close>: the token array (\<^verbatim>\<open>count\<close> is its length) and its capacity.\<close>

record token_stream =
  tokens :: "rift_token list"
  stream_capacity :: nat

text \<open>The token written at index \<^verbatim>\<open>count++\<close>: its column is the count after the increment.\<close>

definition new_token :: "'re regex_lib \<Rightarrow> rift_tokenizer \<Rightarrow> string \<Rightarrow> nat \<Rightarrow> rift_token" where
  "new_token lib tokenizer token_str count =
     \<lparr>tok_type = classify_loop lib (states tokenizer) token_str TOKEN_UNKNOWN,
      tok_value = token_str, tok_line = 1, tok_column = count + 1\<rparr>"

datatype error = HeapOverflow

text \<open>
  The loop of \<^verbatim>\<open>rift_tokenize\<close> in \<^verbatim>\<open>src/poc/rift_sim.c\<close>, over the tokens \<^verbatim>\<open>strtok\<close>
  returns. The stream is allocated for 10 tokens and never grown: a write at index 10
  or beyond is outside the array, the error \<open>HeapOverflow\<close> here.
\<close>

fun tokenize_loop :: "'re regex_lib \<Rightarrow> rift_tokenizer \<Rightarrow> string list \<Rightarrow> token_stream \<Rightarrow> error + token_stream" where
  "tokenize_loop lib tokenizer [] stream = Inr stream"
| "tokenize_loop lib tokenizer (token_str # rest) stream =
     (if length token_str > 0 \<and> hd token_str \<noteq> CHR '' ''
      then (if length (tokens stream) \<ge> stream_capacity stream then Inl HeapOverflow
            else tokenize_loop lib tokenizer rest
                   (stream\<lparr>tokens := tokens stream @
                      [new_token lib tokenizer token_str (length (tokens stream))]\<rparr>))
      else tokenize_loop lib tokenizer rest stream)"

definition rift_tokenize :: "'re regex_lib \<Rightarrow> rift_tokenizer \<Rightarrow> string \<Rightarrow> error + token_stream" where
  "rift_tokenize lib tokenizer input =
     tokenize_loop lib tokenizer (strtok_all input) \<lparr>tokens = [], stream_capacity = 10\<rparr>"

text \<open>
  The same loop in the standalone C11 twin (\<^verbatim>\<open>src/unnamed/part_000\<close>), which doubles the
  capacity when the array is full before it writes.
\<close>

definition grow :: "token_stream \<Rightarrow> token_stream" where
  "grow stream =
     (if length (tokens stream) \<ge> stream_capacity stream
      then stream\<lparr>stream_capacity := stream_capacity stream * 2\<rparr> else stream)"

fun tokenize_loop_c11 :: "'re regex_lib \<Rightarrow> rift_tokenizer \<Rightarrow> string list \<Rightarrow> token_stream \<Rightarrow> token_stream" where
  "tokenize_loop_c11 lib tokenizer [] stream = stream"
| "tokenize_loop_c11 lib tokenizer (token_str # rest) stream =
     (if length token_str > 0 \<and> hd token_str \<noteq> CHR '' ''
      then tokenize_loop_c11 lib tokenizer rest
             ((grow stream)\<lparr>tokens := tokens stream @
                [new_token lib tokenizer token_str (length (tokens stream))]\<rparr>)
      else tokenize_loop_c11 lib tokenizer rest stream)"

definition rift_tokenize_c11 :: "'re regex_lib \<Rightarrow> rift_tokenizer \<Rightarrow> string \<Rightarrow> token_stream" where
  "rift_tokenize_c11 lib tokenizer input =
     tokenize_loop_c11 lib tokenizer (strtok_all input) \<lparr>tokens = [], stream_capacity = 10\<rparr>"

subsection \<open>The stage-bound classifier\<close>

text \<open>
  \<^verbatim>\<open>rift_stage0_process\<close> of \<^verbatim>\<open>escape_sequence_handler.txt\<close> classifies with priorities.
  Its token carries the priority; the rules are the parallel arrays
  \<^verbatim>\<open>token_patterns\<close> and \<^verbatim>\<open>token_priorities\<close> (a list of pairs here), and a rule's
  kind is given by its index.
\<close>

record rift_token_p = rift_token +
  tok_priority :: int

definition kind_of_index :: "nat \<Rightarrow> token_type_t \<Rightarrow> token_type_t" where
  "kind_of_index i ty =
     (if i = 0 then TOKEN_IDENTIFIER
      else if i = 1 then TOKEN_NUMBER
      else if i = 2 then TOKEN_OPERATOR
      else if i = 3 then TOKEN_WHITESPACE
      else ty)"

text \<open>
  The classification loop, from index \<open>i\<close> on: \<open>highest\<close> is \<^verbatim>\<open>highest_priority\<close>, \<open>-1\<close>
  on entry; a matching rule wins only with a priority strictly above it.
\<close>

fun stage0_classify_loop ::
  "'re regex_lib \<Rightarrow> (string \<times> int) list \<Rightarrow> nat \<Rightarrow> string \<Rightarrow> int \<Rightarrow> rift_token_p \<Rightarrow> rift_token_p" where
  "stage0_classify_loop lib [] i token_str highest token = token"
| "stage0_classify_loop lib ((pat, prio) # rules) i token_str highest token =
     (if matches_pattern lib pat token_str \<and> prio > highest
      then stage0_classify_loop lib rules (i + 1) token_str prio
             (token\<lparr>tok_type := kind_of_index i (tok_type token), tok_priority := prio\<rparr>)
      else stage0_classify_loop lib rules (i + 1) token_str highest token)"

text \<open>The token \<^verbatim>\<open>rift_stage0_process\<close> writes for one \<^verbatim>\<open>strtok\<close> result.\<close>

definition stage0_token :: "'re regex_lib \<Rightarrow> (string \<times> int) list \<Rightarrow> string \<Rightarrow> nat \<Rightarrow> rift_token_p" where
  "stage0_token lib rules token_str count =
     stage0_classify_loop lib rules 0 token_str (-1)
       \<lparr>tok_type = TOKEN_UNKNOWN, tok_value = token_str, tok_line = 1, tok_column = count + 1,
        tok_priority = 0\<rparr>"

section \<open>Well-formed expressions, as token streams and as trees\<close>


















section \<open>Inputs and rule sets of the statements\<close>

text \<open>
  An input made of lexemes and runs of ASCII spaces: \<open>lead\<close> spaces, then each lexeme
  followed by its spaces, at least one between two lexemes (\<open>Suc k\<close>) and any number
  behind the last (\<open>k\<close>).
\<close>

fun join_lexemes :: "nat \<Rightarrow> (string \<times> nat) list \<Rightarrow> string" where
  "join_lexemes lead [] = replicate lead (CHR '' '')"
| "join_lexemes lead ((w, k) # rest) =
     replicate lead (CHR '' '') @ w @ join_lexemes (if rest = [] then k else Suc k) rest"

text \<open>The tokenizer \<^verbatim>\<open>rift_tokenizer_create\<close> builds from the governance of the demonstration.\<close>

definition demo_tokenizer :: rift_tokenizer where
  "demo_tokenizer =
     \<lparr>states =
        [\<lparr>st_pattern = ''^[a-zA-Z_]'' @ [backslash] @ ''w*$'', st_type = TOKEN_IDENTIFIER,
          st_is_final = True, st_id = 0\<rparr>,
         \<lparr>st_pattern = ''^'' @ [backslash] @ ''d+$'', st_type = TOKEN_NUMBER,
          st_is_final = True, st_id = 1\<rparr>,
         \<lparr>st_pattern = ''^[+'' @ [backslash] @ ''-*/]$'', st_type = TOKEN_OPERATOR,
          st_is_final = True, st_id = 2\<rparr>,
         \<lparr>st_pattern = ''^'' @ [backslash] @ ''s+$'', st_type = TOKEN_WHITESPACE,
          st_is_final = True, st_id = 3\<rparr>],
      tokenizer_governance = rift_load_governance\<rparr>"

definition tab :: char where
  "tab = CHR 0x09"

text \<open>The characters of the C locale's \<^verbatim>\<open>isspace\<close>: space, tab, newline, VT, FF, CR.\<close>

definition whitespace_chars :: string where
  "whitespace_chars = [CHR '' '', CHR 0x09, CHR 0x0A, CHR 0x0B, CHR 0x0C, CHR 0x0D]"

text \<open>
  The same four states with their patterns spelled in the POSIX fragment: \<^verbatim>\<open>\w\<close>,
  \<^verbatim>\<open>\d\<close> and \<^verbatim>\<open>\s\<close> written as bracket expressions, the hyphen first in its
  bracket.
\<close>

definition posix_tokenizer :: rift_tokenizer where
  "posix_tokenizer =
     \<lparr>states =
        [\<lparr>st_pattern = ''^[a-zA-Z_][a-zA-Z0-9_]*$'', st_type = TOKEN_IDENTIFIER,
          st_is_final = True, st_id = 0\<rparr>,
         \<lparr>st_pattern = ''^[0-9]+$'', st_type = TOKEN_NUMBER,
          st_is_final = True, st_id = 1\<rparr>,
         \<lparr>st_pattern = ''^[-+*/]$'', st_type = TOKEN_OPERATOR,
          st_is_final = True, st_id = 2\<rparr>,
         \<lparr>st_pattern = ''^['' @ whitespace_chars @ '']+$'', st_type = TOKEN_WHITESPACE,
          st_is_final = True, st_id = 3\<rparr>],
      tokenizer_governance = rift_load_governance\<rparr>"

definition eleven_lexemes :: string where
  "eleven_lexemes = ''a a a a a a a a a a a''"

text \<open>The two rules of the specification's example, as states of \<^verbatim>\<open>rift_tokenize\<close>.\<close>

definition claimed_rules :: "rift_state list" where
  "claimed_rules =
     [\<lparr>st_pattern = ''^[0-9]+$'', st_type = TOKEN_NUMBER, st_is_final = True, st_id = 0\<rparr>,
      \<lparr>st_pattern = ''^.$'', st_type = TOKEN_UNKNOWN, st_is_final = True, st_id = 1\<rparr>]"

text \<open>
  Four rules for the stage-bound classifier: identifiers (priority 100) and numbers (90)
  as in \<^verbatim>\<open>.riftrc.0\<close>, any single character (95), and spaces (10).
\<close>

definition priority_rules :: "(string \<times> int) list" where
  "priority_rules =
     [(''^[a-zA-Z_][a-zA-Z0-9_]*$'', 100), (''^[0-9]+$'', 90), (''^.$'', 95), (''^[ ]+$'', 10)]"

text \<open>A governance store to which the same key was added twice.\<close>

definition twice_added :: rift_governance where
  "twice_added =
     \<lparr>entries =
        [\<lparr>pattern = ''first'', intention = ''KEY'', sp_alignment = ''STAGE_0_TOKENIZER''\<rparr>,
         \<lparr>pattern = ''second'', intention = ''KEY'', sp_alignment = ''STAGE_0_TOKENIZER''\<rparr>],
      capacity = 10\<rparr>"

text \<open>The compiled form of a pattern of ordinary characters.\<close>

definition literal :: "string \<Rightarrow> re_branch" where
  "literal p = map (\<lambda>c. (Ordinary c, Once)) p"

section \<open>Properties of the parser, the coordinator and the renderer\<close>

lemmas parser_simps =
  rift_parse_def parse_expression_def parse_term_def parse_factor_def current_token_def
  advance_token_def create_ast_node_def parse_term_loop.simps parse_expression_loop.simps

lemma parse_x_plus_2_times_y:
  "fst (rift_parse parser x_plus_2_times_y) = Some x_plus_2_times_y_tree"
  by (simp add: parser_simps x_plus_2_times_y_def x_plus_2_times_y_tree_def)

text \<open>
  C9: the coordination step returns the very root it was given, so no node's kind, value,
  left child or right child differs; it writes the coordinator's \<open>root\<close> and
  \<open>node_count\<close> only, and leaves its governance and pass count as they were.
\<close>

theorem rift_coordinate_ast_frame:
  "fst (rift_coordinate_ast coordinator ast) = ast
   \<and> snd (rift_coordinate_ast coordinator ast) =
       coordinator\<lparr>root := ast, node_count := count_ast_nodes ast\<rparr>
   \<and> governance (snd (rift_coordinate_ast coordinator ast)) = governance coordinator
   \<and> optimization_passes (snd (rift_coordinate_ast coordinator ast)) =
       optimization_passes coordinator"
  by (simp add: rift_coordinate_ast_def)

text \<open>
  C10: a stream of exactly one Operator token with value \<^verbatim>\<open>+\<close> or \<^verbatim>\<open>-\<close> does not
  parse to an absent result: the parser returns a BinaryOp node carrying that operator,
  both of whose children are absent.
\<close>

theorem parse_lone_additive_operator:
  assumes "tok_type t = TOKEN_OPERATOR" and "tok_value t = ''+'' \<or> tok_value t = ''-''"
  shows "fst (rift_parse parser [t]) = Some (Node AST_BINARY_OP (tok_value t) None None)"
  using assms by (auto simp add: parser_simps)

theorem parse_lone_additive_operator_witness:
  "fst (rift_parse \<lparr>input_tokens = [], current_position = 0\<rparr>
          [\<lparr>tok_type = TOKEN_OPERATOR, tok_value = ''-'', tok_line = 1, tok_column = 1\<rparr>]) =
     Some (Node AST_BINARY_OP ''-'' None None)"
  using parse_lone_additive_operator
          [of "\<lparr>tok_type = TOKEN_OPERATOR, tok_value = ''-'', tok_line = 1, tok_column = 1\<rparr>"
              "\<lparr>input_tokens = [], current_position = 0\<rparr>"]
  by simp

subsection \<open>Left associativity\<close>



















subsection \<open>Rendering\<close>

lemma print_indent_spaces: "print_indent n = replicate (2 * n) (CHR '' '')"
  by (induction n) simp_all

text \<open>
  C8: the renderer produces the canonical nested form. An Identifier or a Number is one
  line \<^verbatim>\<open>(Identifier v)\<close> or \<^verbatim>\<open>(Number v)\<close>; a BinaryOp is \<^verbatim>\<open>(BinOp op\<close>, the two
  children one level deeper, left then right, and a closing \<^verbatim>\<open>)\<close> at the node's own
  indentation; a level is two spaces; an absent child prints nothing. After its progress
  lines \<^verbatim>\<open>rift_generate_output\<close> prints the tree at level 1 inside \<^verbatim>\<open>(AST\<close> and
  \<^verbatim>\<open>)\<close>, which for the tree of \<^verbatim>\<open>"x + 2 * y"\<close> is the text of the specification's
  example, byte for byte.
\<close>

theorem render_canonical_form:
  "print_ast_recursive (Some (Node AST_IDENTIFIER v l r)) n =
     replicate (2 * n) (CHR '' '') @ ''(Identifier '' @ v @ '')\<newline>''
   \<and> print_ast_recursive (Some (Node AST_NUMBER v l r)) n =
     replicate (2 * n) (CHR '' '') @ ''(Number '' @ v @ '')\<newline>''
   \<and> print_ast_recursive (Some (Node AST_BINARY_OP v l r)) n =
     replicate (2 * n) (CHR '' '') @ ''(BinOp '' @ v @ ''\<newline>'' @
     print_ast_recursive l (n + 1) @ print_ast_recursive r (n + 1) @
     replicate (2 * n) (CHR '' '') @ '')\<newline>''
   \<and> print_ast_recursive None n = []
   \<and> snd (rift_generate_output output ast) =
     output_narration (output_format output) @
     ''(AST\<newline>'' @ print_ast_recursive ast 1 @ '')\<newline>''
   \<and> snd (rift_generate_output output (fst (rift_parse parser x_plus_2_times_y))) =
     output_narration (output_format output) @
     ''(AST\<newline>'' @
     ''  (BinOp +\<newline>'' @
     ''    (Identifier x)\<newline>'' @
     ''    (BinOp *\<newline>'' @
     ''      (Number 2)\<newline>'' @
     ''      (Identifier y)\<newline>'' @
     ''    )\<newline>'' @
     ''  )\<newline>'' @
     '')\<newline>''"
  by (simp add: print_indent_spaces rift_generate_output_def parse_x_plus_2_times_y
                x_plus_2_times_y_tree_def numeral_2_eq_2 numeral_3_eq_3)

subsection \<open>Governance lookup\<close>

lemma get_config_loop_first:
  "get_config_loop es key = Some v \<longleftrightarrow>
     (\<exists>i < length es. intention (es ! i) = key \<and> pattern (es ! i) = v \<and>
        (\<forall>j < i. intention (es ! j) \<noteq> key))"
proof (induction es)
  case Nil
  show ?case by simp
next
  case (Cons e es)
  show ?case
  proof (cases "intention e = key")
    case True
    have "(\<exists>i < length (e # es). intention ((e # es) ! i) = key \<and> pattern ((e # es) ! i) = v \<and>
            (\<forall>j < i. intention ((e # es) ! j) \<noteq> key)) \<longleftrightarrow> pattern e = v"
    proof
      assume "\<exists>i < length (e # es). intention ((e # es) ! i) = key \<and> pattern ((e # es) ! i) = v \<and>
                (\<forall>j < i. intention ((e # es) ! j) \<noteq> key)"
      then obtain i where i: "pattern ((e # es) ! i) = v" "\<forall>j < i. intention ((e # es) ! j) \<noteq> key"
        by blast
      from i(2) True have "i = 0" by (cases i) auto
      with i(1) show "pattern e = v" by simp
    next
      assume "pattern e = v"
      with True show "\<exists>i < length (e # es). intention ((e # es) ! i) = key \<and>
                        pattern ((e # es) ! i) = v \<and> (\<forall>j < i. intention ((e # es) ! j) \<noteq> key)"
        by (intro exI [of _ 0]) simp
    qed
    with True show ?thesis by auto
  next
    case False
    have "(\<exists>i < length (e # es). intention ((e # es) ! i) = key \<and> pattern ((e # es) ! i) = v \<and>
            (\<forall>j < i. intention ((e # es) ! j) \<noteq> key)) \<longleftrightarrow>
          (\<exists>i < length es. intention (es ! i) = key \<and> pattern (es ! i) = v \<and>
            (\<forall>j < i. intention (es ! j) \<noteq> key))" (is "?L \<longleftrightarrow> ?R")
    proof
      assume ?L
      then obtain i where i: "i < length (e # es)" "intention ((e # es) ! i) = key"
        "pattern ((e # es) ! i) = v" "\<forall>j < i. intention ((e # es) ! j) \<noteq> key" by blast
      from i(2) False obtain k where k: "i = Suc k" by (cases i) auto
      from i(4) k have "\<forall>j < k. intention (es ! j) \<noteq> key" by auto
      with i k show ?R by (intro exI [of _ k]) simp
    next
      assume ?R
      then obtain k where k: "k < length es" "intention (es ! k) = key" "pattern (es ! k) = v"
        "\<forall>j < k. intention (es ! j) \<noteq> key" by blast
      have "\<forall>j < Suc k. intention ((e # es) ! j) \<noteq> key"
      proof (intro allI impI)
        fix j assume "j < Suc k"
        with k(4) False show "intention ((e # es) ! j) \<noteq> key" by (cases j) auto
      qed
      with k show ?L by (intro exI [of _ "Suc k"]) simp
    qed
    with False Cons.IH show ?thesis by simp
  qed
qed

lemma get_config_loop_none:
  "get_config_loop es key = None \<longleftrightarrow> (\<forall>e \<in> set es. intention e \<noteq> key)"
  by (induction es) auto

lemma get_config_loop_append:
  "get_config_loop (es @ es') key =
     (case get_config_loop es key of Some v \<Rightarrow> Some v | None \<Rightarrow> get_config_loop es' key)"
  by (induction es) auto

lemma section_get_loop_append:
  "section_get_loop (ps @ ps') key =
     (case section_get_loop ps key of Some v \<Rightarrow> Some v | None \<Rightarrow> section_get_loop ps' key)"
  by (induction ps) auto

lemma config_section_get_add:
  "config_section_get (config_section_add sec k v) key =
     (case config_section_get sec key of
        Some v' \<Rightarrow> Some v'
      | None \<Rightarrow> if k = key then Some v else None)"
  by (simp add: config_section_get_def config_section_add_def Let_def section_get_loop_append
           split: option.splits)

text \<open>
  C5, as the claim states it, fails: with the same key added twice, first with the value
  \<^verbatim>\<open>first\<close> and then with \<^verbatim>\<open>second\<close>, both lookups return \<^verbatim>\<open>first\<close>, the value
  written first.
\<close>

theorem lookup_last_insert_wins_counterexample:
  "rift_get_config_value twice_added ''KEY'' = Some ''first''
   \<and> rift_get_config_value twice_added ''KEY'' \<noteq> Some ''second''
   \<and> config_section_get
        (config_section_add (config_section_add config_section_create ''KEY'' ''first'')
           ''KEY'' ''second'') ''KEY'' \<noteq> Some ''second''"
proof -
  have "config_section_get config_section_create ''KEY'' = None"
    by (simp add: config_section_get_def config_section_create_def)
  then have "config_section_get
        (config_section_add (config_section_add config_section_create ''KEY'' ''first'')
           ''KEY'' ''second'') ''KEY'' = Some ''first''"
    by (simp add: config_section_get_add)
  then show ?thesis
    by (simp add: rift_get_config_value_def twice_added_def)
qed

text \<open>
  C5, amended: lookup returns the value of the earliest-added entry whose key matches
  (first-insert-wins), and nothing when no entry matches. An entry added behind a
  matching one never changes the result: when the same key is added twice, lookup
  returns the value written first. The same holds for \<^verbatim>\<open>config_section_get\<close> after
  \<^verbatim>\<open>config_section_add\<close>.
\<close>

theorem lookup_first_insert_wins:
  "(rift_get_config_value gov key = Some v \<longleftrightarrow>
      (\<exists>i < length (entries gov). intention (entries gov ! i) = key \<and>
         pattern (entries gov ! i) = v \<and>
         (\<forall>j < i. intention (entries gov ! j) \<noteq> key)))
   \<and> (rift_get_config_value gov key = None \<longleftrightarrow> (\<forall>e \<in> set (entries gov). intention e \<noteq> key))
   \<and> (rift_get_config_value gov key = Some v \<longrightarrow>
        rift_get_config_value (gov\<lparr>entries := entries gov @ [e]\<rparr>) key = Some v)
   \<and> (config_section_get sec k = Some w \<longrightarrow>
        config_section_get (config_section_add sec k w') k = Some w)
   \<and> (config_section_get sec k = None \<longrightarrow>
        config_section_get (config_section_add (config_section_add sec k w) k w') k = Some w)"
proof -
  have "rift_get_config_value gov key = Some v \<longrightarrow>
        rift_get_config_value (gov\<lparr>entries := entries gov @ [e]\<rparr>) key = Some v"
    by (simp add: rift_get_config_value_def get_config_loop_append)
  moreover have "config_section_get sec k = Some w \<longrightarrow>
        config_section_get (config_section_add sec k w') k = Some w"
    by (simp add: config_section_get_add)
  moreover have "config_section_get sec k = None \<longrightarrow>
        config_section_get (config_section_add (config_section_add sec k w) k w') k = Some w"
    by (simp add: config_section_get_add)
  ultimately show ?thesis
    by (simp only: rift_get_config_value_def get_config_loop_first get_config_loop_none simp_thms)
qed

theorem lookup_first_insert_wins_witness:
  "rift_get_config_value rift_load_governance ''NUMBER_RECOGNITION'' = Some (''^'' @ [backslash] @ ''d+$'')
   \<and> rift_get_config_value
        (rift_load_governance\<lparr>entries := entries rift_load_governance @
           [\<lparr>pattern = ''^[0-9]+$'', intention = ''NUMBER_RECOGNITION'',
             sp_alignment = ''STAGE_0_TOKENIZER''\<rparr>]\<rparr>)
        ''NUMBER_RECOGNITION'' = Some (''^'' @ [backslash] @ ''d+$'')
   \<and> config_section_get config_section_create ''KEY'' = None
   \<and> config_section_get
        (config_section_add (config_section_add config_section_create ''KEY'' ''first'')
           ''KEY'' ''second'') ''KEY'' = Some ''first''"
proof -
  have a: "rift_get_config_value rift_load_governance ''NUMBER_RECOGNITION'' =
             Some (''^'' @ [backslash] @ ''d+$'')"
    by (simp add: rift_get_config_value_def rift_load_governance_def)
  have b: "config_section_get config_section_create ''KEY'' = None"
    by (simp add: config_section_get_def config_section_create_def)
  note t = lookup_first_insert_wins
         [of rift_load_governance "''NUMBER_RECOGNITION''" "''^'' @ [backslash] @ ''d+$''"
             "\<lparr>pattern = ''^[0-9]+$'', intention = ''NUMBER_RECOGNITION'',
               sp_alignment = ''STAGE_0_TOKENIZER''\<rparr>"
             config_section_create "''KEY''" "''first''" "''second''"]
  have c: "rift_get_config_value
        (rift_load_governance\<lparr>entries := entries rift_load_governance @
           [\<lparr>pattern = ''^[0-9]+$'', intention = ''NUMBER_RECOGNITION'',
             sp_alignment = ''STAGE_0_TOKENIZER''\<rparr>]\<rparr>)
        ''NUMBER_RECOGNITION'' = Some (''^'' @ [backslash] @ ''d+$'')"
    by (rule mp [OF t [THEN conjunct2, THEN conjunct2, THEN conjunct1] a])
  have d: "config_section_get
        (config_section_add (config_section_add config_section_create ''KEY'' ''first'')
           ''KEY'' ''second'') ''KEY'' = Some ''first''"
    by (rule mp [OF t [THEN conjunct2, THEN conjunct2, THEN conjunct2, THEN conjunct2] b])
  from a b c d show ?thesis by (intro conjI)
qed

subsection \<open>Tokenization\<close>

lemma strtok_all_Nil: "strtok_all [] = []"
  by (simp add: strtok_all.simps)

lemma strtok_all_space: "strtok_all (CHR '' '' # s) = strtok_all s"
  by (simp add: strtok_all.simps [of "CHR '' '' # s"] strtok_all.simps [of s])

lemma strtok_all_spaces: "strtok_all (replicate n (CHR '' '') @ s) = strtok_all s"
  by (induction n) (simp_all add: strtok_all_space)

lemma strtok_all_only_spaces: "strtok_all s = [] \<longleftrightarrow> set s \<subseteq> {CHR '' ''}"
proof (induction s)
  case Nil
  show ?case by (simp add: strtok_all_Nil)
next
  case (Cons c s)
  show ?case
  proof (cases "c = CHR '' ''")
    case True
    with Cons show ?thesis by (simp add: strtok_all_space)
  next
    case False
    then show ?thesis by (simp add: strtok_all.simps [of "c # s"])
  qed
qed

lemma strtok_all_word:
  assumes "w \<noteq> []" and "CHR '' '' \<notin> set w" and "rest = [] \<or> hd rest = CHR '' ''"
  shows "strtok_all (w @ rest) = w # strtok_all rest"
proof -
  obtain c cs where w: "w = c # cs" using assms(1) by (cases w) auto
  with assms(2) have c: "c \<noteq> CHR '' ''" by auto
  have all: "\<forall>x \<in> set w. x \<noteq> CHR '' ''" using assms(2) by auto
  have tw: "takeWhile (\<lambda>c. c \<noteq> CHR '' '') (w @ rest) = w"
    using all assms(3) by (cases rest) (simp_all add: takeWhile_append2 takeWhile_tail)
  have dw: "dropWhile (\<lambda>c. c \<noteq> CHR '' '') (w @ rest) = rest"
    using all assms(3) by (cases rest) (simp_all add: dropWhile_append2)
  have d0: "dropWhile (\<lambda>c. c = CHR '' '') (w @ rest) = w @ rest"
    using c by (simp add: w)
  show ?thesis
    by (subst strtok_all.simps) (simp only: d0 tw dw Let_def append_is_Nil_conv assms(1) simp_thms if_False)
qed

lemma strtok_all_join:
  assumes "\<forall>(w, k) \<in> set ws. w \<noteq> [] \<and> CHR '' '' \<notin> set w"
  shows "strtok_all (join_lexemes lead ws) = map fst ws"
  using assms
proof (induction ws arbitrary: lead)
  case Nil
  show ?case using strtok_all_spaces [of lead "[]"] by (simp add: strtok_all_Nil)
next
  case (Cons p ws)
  obtain w k where p: "p = (w, k)" by (cases p)
  from Cons.prems p have w: "w \<noteq> []" "CHR '' '' \<notin> set w"
    and ws: "\<forall>(w, k) \<in> set ws. w \<noteq> [] \<and> CHR '' '' \<notin> set w" by auto
  define lead' where "lead' = (if ws = [] then k else Suc k)"
  have hd_rest: "join_lexemes lead' ws = [] \<or> hd (join_lexemes lead' ws) = CHR '' ''"
  proof (cases ws)
    case Nil
    then show ?thesis by (cases k) (simp_all add: lead'_def)
  next
    case (Cons q qs)
    then show ?thesis by (cases q) (simp add: lead'_def)
  qed
  have "strtok_all (join_lexemes lead (p # ws)) =
        strtok_all (w @ join_lexemes lead' ws)"
    by (simp add: p lead'_def strtok_all_spaces)
  also have "\<dots> = w # strtok_all (join_lexemes lead' ws)"
    by (rule strtok_all_word [OF w hd_rest])
  finally show ?case by (simp add: p Cons.IH [OF ws])
qed

lemma strtok_all_tokens:
  "w \<in> set (strtok_all s) \<Longrightarrow> w \<noteq> [] \<and> CHR '' '' \<notin> set w"
proof (induction s rule: strtok_all.induct)
  case (1 s)
  define s1 where "s1 = dropWhile (\<lambda>c. c = CHR '' '') s"
  show ?case
  proof (cases "s1 = []")
    case True
    then have "strtok_all s = []"
      by (subst strtok_all.simps) (simp only: Let_def s1_def [symmetric] if_True simp_thms)
    with "1.prems" show ?thesis by simp
  next
    case False
    have hd: "hd s1 \<noteq> CHR '' ''"
      using hd_dropWhile [of "\<lambda>c. c = CHR '' ''" s] False by (simp add: s1_def)
    have "strtok_all s = takeWhile (\<lambda>c. c \<noteq> CHR '' '') s1 #
            strtok_all (dropWhile (\<lambda>c. c \<noteq> CHR '' '') s1)"
      using False by (subst strtok_all.simps) (simp only: Let_def s1_def [symmetric] if_False simp_thms)
    with "1.prems"
    have "w = takeWhile (\<lambda>c. c \<noteq> CHR '' '') s1 \<or>
          w \<in> set (strtok_all (dropWhile (\<lambda>c. c \<noteq> CHR '' '') s1))"
      by simp
    then show ?thesis
    proof
      assume w: "w = takeWhile (\<lambda>c. c \<noteq> CHR '' '') s1"
      have "w \<noteq> []" using False hd unfolding w by (cases s1) auto
      moreover have "CHR '' '' \<notin> set w" unfolding w by (auto dest: set_takeWhileD)
      ultimately show ?thesis by simp
    next
      assume "w \<in> set (strtok_all (dropWhile (\<lambda>c. c \<noteq> CHR '' '') s1))"
      with "1.IH" [OF s1_def False] show ?thesis by simp
    qed
  qed
qed

lemma demo_tokenizer_created: "rift_tokenizer_create rift_load_governance = Some demo_tokenizer"
  by (simp add: rift_tokenizer_create_def rift_get_config_value_def rift_load_governance_def
                demo_tokenizer_def)

lemma strtok_guard:
  "w \<in> set (strtok_all s) \<Longrightarrow> length w > 0 \<and> hd w \<noteq> CHR '' ''"
  using strtok_all_tokens [of w s] by (cases w) auto

lemma tokenize_loop_c11_tokens:
  assumes "\<forall>w \<in> set ws. length w > 0 \<and> hd w \<noteq> CHR '' ''"
  shows "tokens (tokenize_loop_c11 lib tk ws stream) =
           tokens stream @
           map (\<lambda>(i, w). new_token lib tk w i) (enumerate (length (tokens stream)) ws)"
  using assms
proof (induction ws arbitrary: stream)
  case Nil
  show ?case by simp
next
  case (Cons w ws)
  define stream' where
    "stream' = (grow stream)\<lparr>tokens := tokens stream @ [new_token lib tk w (length (tokens stream))]\<rparr>"
  from Cons.prems have guard: "length w > 0 \<and> hd w \<noteq> CHR '' ''"
    and rest: "\<forall>w \<in> set ws. length w > 0 \<and> hd w \<noteq> CHR '' ''" by auto
  have "tokens (tokenize_loop_c11 lib tk (w # ws) stream) =
        tokens (tokenize_loop_c11 lib tk ws stream')"
    using guard by (simp add: stream'_def)
  also have "\<dots> = tokens stream' @
        map (\<lambda>(i, w). new_token lib tk w i) (enumerate (length (tokens stream')) ws)"
    by (rule Cons.IH [OF rest])
  finally show ?case by (simp add: stream'_def)
qed

lemma tokenize_loop_fits:
  assumes "\<forall>w \<in> set ws. length w > 0 \<and> hd w \<noteq> CHR '' ''"
    and "length (tokens stream) + length ws \<le> stream_capacity stream"
  shows "tokenize_loop lib tk ws stream =
           Inr (stream\<lparr>tokens := tokens stream @
             map (\<lambda>(i, w). new_token lib tk w i) (enumerate (length (tokens stream)) ws)\<rparr>)"
  using assms
proof (induction ws arbitrary: stream)
  case Nil
  show ?case by simp
next
  case (Cons w ws)
  define stream' where
    "stream' = stream\<lparr>tokens := tokens stream @ [new_token lib tk w (length (tokens stream))]\<rparr>"
  from Cons.prems have guard: "length w > 0 \<and> hd w \<noteq> CHR '' ''"
    and rest: "\<forall>w \<in> set ws. length w > 0 \<and> hd w \<noteq> CHR '' ''"
    and fits: "length (tokens stream) < stream_capacity stream"
    and fits': "length (tokens stream') + length ws \<le> stream_capacity stream'"
    by (auto simp: stream'_def)
  have "tokenize_loop lib tk (w # ws) stream = tokenize_loop lib tk ws stream'"
    using guard fits by (simp add: stream'_def)
  also have "\<dots> = Inr (stream'\<lparr>tokens := tokens stream' @
        map (\<lambda>(i, w). new_token lib tk w i) (enumerate (length (tokens stream')) ws)\<rparr>)"
    by (rule Cons.IH [OF rest fits'])
  finally show ?case by (simp add: stream'_def)
qed

lemma tokenize_loop_overflow:
  assumes "\<forall>w \<in> set ws. length w > 0 \<and> hd w \<noteq> CHR '' ''"
    and "length (tokens stream) + length ws > stream_capacity stream"
    and "length (tokens stream) \<le> stream_capacity stream"
  shows "tokenize_loop lib tk ws stream = Inl HeapOverflow"
  using assms
proof (induction ws arbitrary: stream)
  case Nil
  then show ?case by simp
next
  case (Cons w ws)
  show ?case
  proof (cases "length (tokens stream) \<ge> stream_capacity stream")
    case True
    with Cons.prems show ?thesis by simp
  next
    case False
    define stream' where
      "stream' = stream\<lparr>tokens := tokens stream @ [new_token lib tk w (length (tokens stream))]\<rparr>"
    from Cons.prems have rest: "\<forall>w \<in> set ws. length w > 0 \<and> hd w \<noteq> CHR '' ''"
      and over: "length (tokens stream') + length ws > stream_capacity stream'"
      and le: "length (tokens stream') \<le> stream_capacity stream'"
      using False by (auto simp: stream'_def)
    have "tokenize_loop lib tk (w # ws) stream = tokenize_loop lib tk ws stream'"
      using Cons.prems False by (simp add: stream'_def)
    with Cons.IH [OF rest over le] show ?thesis by simp
  qed
qed

lemma rift_tokenize_c11_tokens:
  "tokens (rift_tokenize_c11 lib tk input) =
     map (\<lambda>(i, w). new_token lib tk w i) (enumerate 0 (strtok_all input))"
  using tokenize_loop_c11_tokens [of "strtok_all input" lib tk "\<lparr>tokens = [], stream_capacity = 10\<rparr>"]
        strtok_guard [of _ input]
  by (simp add: rift_tokenize_c11_def)

lemma rift_tokenize_fits:
  "length (strtok_all input) \<le> 10 \<Longrightarrow>
   rift_tokenize lib tk input =
     Inr \<lparr>tokens = tokens (rift_tokenize_c11 lib tk input), stream_capacity = 10\<rparr>"
  using tokenize_loop_fits [of "strtok_all input" "\<lparr>tokens = [], stream_capacity = 10\<rparr>" lib tk]
        strtok_guard [of _ input]
  by (simp add: rift_tokenize_def rift_tokenize_c11_tokens)

lemma rift_tokenize_overflow:
  "length (strtok_all input) > 10 \<Longrightarrow> rift_tokenize lib tk input = Inl HeapOverflow"
  using tokenize_loop_overflow [of "strtok_all input" "\<lparr>tokens = [], stream_capacity = 10\<rparr>" lib tk]
        strtok_guard [of _ input]
  by (simp add: rift_tokenize_def)

lemma map_new_token_value:
  "map tok_value (map (\<lambda>(i, w). new_token lib tk w i) (enumerate n ws)) = ws"
  by (induction ws arbitrary: n) (simp_all add: new_token_def)

lemma map_new_token_line:
  "map tok_line (map (\<lambda>(i, w). new_token lib tk w i) (enumerate n ws)) = replicate (length ws) 1"
  by (induction ws arbitrary: n) (simp_all add: new_token_def)

lemma map_new_token_column:
  "map tok_column (map (\<lambda>(i, w). new_token lib tk w i) (enumerate n ws)) =
     [Suc n ..< Suc n + length ws]"
  by (induction ws arbitrary: n) (simp_all add: new_token_def upt_rec)

lemma map_new_token_type:
  "map tok_type (map (\<lambda>(i, w). new_token lib tk w i) (enumerate n ws)) =
     map (\<lambda>w. classify_loop lib (states tk) w TOKEN_UNKNOWN) ws"
  by (induction ws arbitrary: n) (simp_all add: new_token_def)

lemmas posix_eval =
  matches_pattern_def posix_lib_def posix_regcomp_def posix_regexec_def re_search_any_def
  atom_of_def dup_of_def parse_bracket_def class_opener_def escape_atom_def ordinary_def
  word_items_def space_items_def backslash_def

lemma classify_x: "classify_loop posix_lib (states posix_tokenizer) ''x'' TOKEN_UNKNOWN = TOKEN_IDENTIFIER"
  by (simp add: posix_tokenizer_def posix_eval tab_def whitespace_chars_def)

lemma classify_y: "classify_loop posix_lib (states posix_tokenizer) ''y'' TOKEN_UNKNOWN = TOKEN_IDENTIFIER"
  by (simp add: posix_tokenizer_def posix_eval tab_def whitespace_chars_def)

lemma classify_2: "classify_loop posix_lib (states posix_tokenizer) ''2'' TOKEN_UNKNOWN = TOKEN_NUMBER"
  by (simp add: posix_tokenizer_def posix_eval tab_def whitespace_chars_def)

lemma classify_plus: "classify_loop posix_lib (states posix_tokenizer) ''+'' TOKEN_UNKNOWN = TOKEN_OPERATOR"
  by (simp add: posix_tokenizer_def posix_eval tab_def whitespace_chars_def)

lemma classify_times: "classify_loop posix_lib (states posix_tokenizer) ''*'' TOKEN_UNKNOWN = TOKEN_OPERATOR"
  by (simp add: posix_tokenizer_def posix_eval tab_def whitespace_chars_def)

lemma classify_tab: "classify_loop posix_lib (states posix_tokenizer) [tab] TOKEN_UNKNOWN = TOKEN_WHITESPACE"
  by (simp add: posix_tokenizer_def posix_eval tab_def whitespace_chars_def)

lemma strtok_x_plus_2_times_y: "strtok_all ''x + 2 * y'' = [''x'', ''+'', ''2'', ''*'', ''y'']"
  by (simp add: strtok_all.simps Let_def)

lemma tokenize_x_plus_2_times_y:
  "tokens (rift_tokenize_c11 posix_lib posix_tokenizer ''x + 2 * y'') = x_plus_2_times_y"
  by (simp only: rift_tokenize_c11_tokens strtok_x_plus_2_times_y)
     (simp add: enumerate_eq_zip upt_rec new_token_def classify_x classify_y classify_2
                classify_plus classify_times x_plus_2_times_y_def)

lemma classify_loop_whitespace:
  "classify_loop lib sts w TOKEN_UNKNOWN = TOKEN_WHITESPACE \<Longrightarrow>
   \<exists>st \<in> set sts. st_type st = TOKEN_WHITESPACE \<and> matches_pattern lib (st_pattern st) w"
  by (induction sts) (auto split: if_splits)

lemma rift_parse_empty: "fst (rift_parse parser []) = None"
  by (simp add: parser_simps)

text \<open>
  C7, as the claim states it, fails: a tab is a whitespace character, but \<^verbatim>\<open>strtok\<close>
  splits at the ASCII space only, so for the input consisting of one tab the tokenizer
  returns a stream of one token, not an empty one.
\<close>

theorem tokenize_whitespace_only_counterexample:
  "map tok_value (tokens (rift_tokenize_c11 posix_lib posix_tokenizer [tab])) = [[tab]]
   \<and> tokens (rift_tokenize_c11 posix_lib posix_tokenizer [tab]) \<noteq> []
   \<and> rift_tokenize posix_lib posix_tokenizer [tab] \<noteq> Inr \<lparr>tokens = [], stream_capacity = 10\<rparr>"
proof -
  have toks: "strtok_all [tab] = [[tab]]"
    by (simp add: strtok_all.simps Let_def tab_def)
  have a: "map tok_value (tokens (rift_tokenize_c11 posix_lib posix_tokenizer [tab])) = [[tab]]"
    by (simp only: rift_tokenize_c11_tokens map_new_token_value toks)
  then have b: "tokens (rift_tokenize_c11 posix_lib posix_tokenizer [tab]) \<noteq> []"
    by auto
  have "rift_tokenize posix_lib posix_tokenizer [tab] =
          Inr \<lparr>tokens = tokens (rift_tokenize_c11 posix_lib posix_tokenizer [tab]),
               stream_capacity = 10\<rparr>"
    by (rule rift_tokenize_fits) (simp add: toks)
  with b have "rift_tokenize posix_lib posix_tokenizer [tab] \<noteq>
          Inr \<lparr>tokens = [], stream_capacity = 10\<rparr>"
    by simp
  with a b show ?thesis by simp
qed

text \<open>
  C7, amended: for every input string containing only ASCII space characters (the one
  delimiter the tokenizer splits at), tokenize returns an empty TokenStream, with no
  error, and parse on that empty stream returns an absent root node.
\<close>

theorem tokenize_spaces_only_empty:
  assumes "set input \<subseteq> {CHR '' ''}"
  shows "rift_tokenize lib tokenizer input = Inr \<lparr>tokens = [], stream_capacity = 10\<rparr>
         \<and> rift_tokenize_c11 lib tokenizer input = \<lparr>tokens = [], stream_capacity = 10\<rparr>
         \<and> fst (rift_parse parser (tokens (rift_tokenize_c11 lib tokenizer input))) = None
         \<and> fst (rift_parse parser []) = None"
proof -
  from assms have "strtok_all input = []"
    by (simp only: strtok_all_only_spaces)
  then show ?thesis
    by (simp add: rift_tokenize_def rift_tokenize_c11_def rift_parse_empty)
qed

theorem tokenize_spaces_only_empty_witness:
  "set ''   '' \<subseteq> {CHR '' ''}
   \<and> rift_tokenize posix_lib posix_tokenizer ''   '' = Inr \<lparr>tokens = [], stream_capacity = 10\<rparr>
   \<and> fst (rift_parse \<lparr>input_tokens = [], current_position = 0\<rparr>
             (tokens (rift_tokenize_c11 posix_lib posix_tokenizer ''   ''))) = None"
  using tokenize_spaces_only_empty
          [of "''   ''" posix_lib posix_tokenizer "\<lparr>input_tokens = [], current_position = 0\<rparr>"]
  by simp

text \<open>
  C4, as the claim states it, fails. A tab separates lexemes in no way: \<^verbatim>\<open>a<TAB>b\<close> is
  one token, not two. A lexeme made of a tab is classified by the whitespace rule, so the
  stream holds a token of Whitespace kind. And in \<^verbatim>\<open>src/poc/rift_sim.c\<close> the eleventh
  lexeme is written behind the end of the token array.
\<close>

theorem tokenize_per_lexeme_counterexample:
  "map tok_value (tokens (rift_tokenize_c11 posix_lib posix_tokenizer (''a'' @ [tab] @ ''b''))) =
     [''a'' @ [tab] @ ''b'']
   \<and> map tok_value (tokens (rift_tokenize_c11 posix_lib posix_tokenizer (''a'' @ [tab] @ ''b''))) \<noteq>
     [''a'', ''b'']
   \<and> tokens (rift_tokenize_c11 posix_lib posix_tokenizer (''a '' @ [tab] @ '' b'')) =
     [\<lparr>tok_type = TOKEN_IDENTIFIER, tok_value = ''a'', tok_line = 1, tok_column = 1\<rparr>,
      \<lparr>tok_type = TOKEN_WHITESPACE, tok_value = [tab], tok_line = 1, tok_column = 2\<rparr>,
      \<lparr>tok_type = TOKEN_IDENTIFIER, tok_value = ''b'', tok_line = 1, tok_column = 3\<rparr>]
   \<and> rift_tokenize posix_lib posix_tokenizer eleven_lexemes = Inl HeapOverflow"
proof -
  have t1: "strtok_all (''a'' @ [tab] @ ''b'') = [''a'' @ [tab] @ ''b'']"
    by (simp add: strtok_all.simps Let_def tab_def)
  have t2: "strtok_all (''a '' @ [tab] @ '' b'') = [''a'', [tab], ''b'']"
    by (simp add: strtok_all.simps Let_def tab_def)
  have t3: "length (strtok_all eleven_lexemes) = 11"
    by (simp add: strtok_all.simps Let_def eleven_lexemes_def)
  have ca: "classify_loop posix_lib (states posix_tokenizer) ''a'' TOKEN_UNKNOWN = TOKEN_IDENTIFIER"
    by (simp add: posix_tokenizer_def posix_eval whitespace_chars_def)
  have cb: "classify_loop posix_lib (states posix_tokenizer) ''b'' TOKEN_UNKNOWN = TOKEN_IDENTIFIER"
    by (simp add: posix_tokenizer_def posix_eval whitespace_chars_def)
  have a: "map tok_value (tokens (rift_tokenize_c11 posix_lib posix_tokenizer (''a'' @ [tab] @ ''b''))) =
             [''a'' @ [tab] @ ''b'']"
    by (simp only: rift_tokenize_c11_tokens map_new_token_value t1)
  have b: "tokens (rift_tokenize_c11 posix_lib posix_tokenizer (''a '' @ [tab] @ '' b'')) =
     [\<lparr>tok_type = TOKEN_IDENTIFIER, tok_value = ''a'', tok_line = 1, tok_column = 1\<rparr>,
      \<lparr>tok_type = TOKEN_WHITESPACE, tok_value = [tab], tok_line = 1, tok_column = 2\<rparr>,
      \<lparr>tok_type = TOKEN_IDENTIFIER, tok_value = ''b'', tok_line = 1, tok_column = 3\<rparr>]"
    by (simp only: rift_tokenize_c11_tokens t2)
       (simp add: enumerate_eq_zip upt_rec new_token_def ca cb classify_tab)
  have c: "rift_tokenize posix_lib posix_tokenizer eleven_lexemes = Inl HeapOverflow"
    by (rule rift_tokenize_overflow) (simp add: t3)
  from a b c show ?thesis by simp
qed

text \<open>
  C4, amended: for every input string consisting of lexemes separated by runs of ASCII
  spaces, a lexeme being a non-empty run of characters other than the ASCII space (a tab
  or a newline is a lexeme character), tokenize produces exactly one Token per lexeme, in
  left-to-right input order, on line 1 and with its 1-based position as column, typed by
  the first state whose pattern matches it; the stream contains zero tokens of Whitespace
  kind whenever no Whitespace state's pattern matches a lexeme. The tokenizer of
  \<^verbatim>\<open>src/poc/rift_sim.c\<close> returns that stream as long as the input has at most 10
  lexemes.
\<close>

theorem tokenize_per_lexeme:
  assumes "\<forall>(w, k) \<in> set ws. w \<noteq> [] \<and> CHR '' '' \<notin> set w"
  shows "map tok_value (tokens (rift_tokenize_c11 lib tokenizer (join_lexemes lead ws))) = map fst ws
   \<and> map tok_type (tokens (rift_tokenize_c11 lib tokenizer (join_lexemes lead ws))) =
       map (\<lambda>(w, k). classify_loop lib (states tokenizer) w TOKEN_UNKNOWN) ws
   \<and> map tok_line (tokens (rift_tokenize_c11 lib tokenizer (join_lexemes lead ws))) =
       replicate (length ws) 1
   \<and> map tok_column (tokens (rift_tokenize_c11 lib tokenizer (join_lexemes lead ws))) =
       [1 ..< length ws + 1]
   \<and> ((\<forall>st \<in> set (states tokenizer). st_type st = TOKEN_WHITESPACE \<longrightarrow>
          (\<forall>(w, k) \<in> set ws. \<not> matches_pattern lib (st_pattern st) w)) \<longrightarrow>
        (\<forall>t \<in> set (tokens (rift_tokenize_c11 lib tokenizer (join_lexemes lead ws))).
           tok_type t \<noteq> TOKEN_WHITESPACE))
   \<and> (length ws \<le> 10 \<longrightarrow>
        rift_tokenize lib tokenizer (join_lexemes lead ws) =
          Inr \<lparr>tokens = tokens (rift_tokenize_c11 lib tokenizer (join_lexemes lead ws)),
               stream_capacity = 10\<rparr>)"
proof -
  let ?toks = "tokens (rift_tokenize_c11 lib tokenizer (join_lexemes lead ws))"
  have lex: "strtok_all (join_lexemes lead ws) = map fst ws"
    by (rule strtok_all_join [OF assms])
  have v: "map tok_value ?toks = map fst ws"
    by (simp only: rift_tokenize_c11_tokens map_new_token_value lex)
  have ty: "map tok_type ?toks = map (\<lambda>(w, k). classify_loop lib (states tokenizer) w TOKEN_UNKNOWN) ws"
    by (simp only: rift_tokenize_c11_tokens map_new_token_type lex) (simp add: case_prod_unfold)
  have ln: "map tok_line ?toks = replicate (length ws) 1"
    by (simp only: rift_tokenize_c11_tokens map_new_token_line lex length_map)
  have cl: "map tok_column ?toks = [1 ..< length ws + 1]"
    by (simp only: rift_tokenize_c11_tokens map_new_token_column lex length_map) simp
  have ws_free: "\<forall>t \<in> set ?toks. tok_type t \<noteq> TOKEN_WHITESPACE"
    if none: "\<forall>st \<in> set (states tokenizer). st_type st = TOKEN_WHITESPACE \<longrightarrow>
                (\<forall>(w, k) \<in> set ws. \<not> matches_pattern lib (st_pattern st) w)"
  proof
    fix t assume "t \<in> set ?toks"
    then have "tok_type t \<in> set (map tok_type ?toks)" by simp
    then obtain w k where wk: "(w, k) \<in> set ws"
      and t: "tok_type t = classify_loop lib (states tokenizer) w TOKEN_UNKNOWN"
      unfolding ty by auto
    show "tok_type t \<noteq> TOKEN_WHITESPACE"
    proof
      assume "tok_type t = TOKEN_WHITESPACE"
      with t classify_loop_whitespace [of lib "states tokenizer" w]
      obtain st where "st \<in> set (states tokenizer)" "st_type st = TOKEN_WHITESPACE"
        "matches_pattern lib (st_pattern st) w" by auto
      with none wk show False by auto
    qed
  qed
  have poc: "rift_tokenize lib tokenizer (join_lexemes lead ws) =
               Inr \<lparr>tokens = ?toks, stream_capacity = 10\<rparr>" if "length ws \<le> 10"
    by (rule rift_tokenize_fits) (simp add: lex that)
  show ?thesis
    apply (intro conjI impI)
         apply (rule v)
        apply (rule ty)
       apply (rule ln)
      apply (rule cl)
     apply (erule ws_free)
    apply (erule poc)
    done
qed

theorem tokenize_per_lexeme_witness:
  "list_all (\<lambda>(w, k). w \<noteq> [] \<and> CHR '' '' \<notin> set w)
      [(''x'', 0), (''+'', 2), (''2'', 0), (''*'', 0), (''y'', 1 :: nat)]
   \<and> join_lexemes 2 [(''x'', 0), (''+'', 2), (''2'', 0), (''*'', 0), (''y'', 1)] = ''  x +   2 * y ''
   \<and> map tok_value (tokens (rift_tokenize_c11 posix_lib posix_tokenizer ''  x +   2 * y '')) =
       [''x'', ''+'', ''2'', ''*'', ''y'']
   \<and> map tok_column (tokens (rift_tokenize_c11 posix_lib posix_tokenizer ''  x +   2 * y '')) =
       [1, 2, 3, 4, 5]
   \<and> rift_tokenize posix_lib posix_tokenizer ''  x +   2 * y '' =
       Inr \<lparr>tokens = tokens (rift_tokenize_c11 posix_lib posix_tokenizer ''  x +   2 * y ''),
            stream_capacity = 10\<rparr>"
proof -
  have h: "\<forall>(w, k) \<in> set [(''x'', 0), (''+'', 2), (''2'', 0), (''*'', 0), (''y'', 1 :: nat)].
             w \<noteq> [] \<and> CHR '' '' \<notin> set w"
    by simp
  have j: "join_lexemes 2 [(''x'', 0), (''+'', 2), (''2'', 0), (''*'', 0), (''y'', 1)] = ''  x +   2 * y ''"
    by (simp add: numeral_2_eq_2)
  note t = tokenize_per_lexeme [OF h, of posix_lib posix_tokenizer 2, unfolded j]
  have v: "map tok_value (tokens (rift_tokenize_c11 posix_lib posix_tokenizer ''  x +   2 * y '')) =
       [''x'', ''+'', ''2'', ''*'', ''y'']"
    using t [THEN conjunct1] by simp
  have c: "map tok_column (tokens (rift_tokenize_c11 posix_lib posix_tokenizer ''  x +   2 * y '')) =
       [1, 2, 3, 4, 5]"
    using t [THEN conjunct2, THEN conjunct2, THEN conjunct2, THEN conjunct1] by (simp add: upt_rec)
  have p: "rift_tokenize posix_lib posix_tokenizer ''  x +   2 * y '' =
       Inr \<lparr>tokens = tokens (rift_tokenize_c11 posix_lib posix_tokenizer ''  x +   2 * y ''),
            stream_capacity = 10\<rparr>"
    using t [THEN conjunct2, THEN conjunct2, THEN conjunct2, THEN conjunct2, THEN conjunct2] by simp
  have h': "list_all (\<lambda>(w, k). w \<noteq> [] \<and> CHR '' '' \<notin> set w)
      [(''x'', 0), (''+'', 2), (''2'', 0), (''*'', 0), (''y'', 1 :: nat)]"
    by simp
  from h' j v c p show ?thesis by (intro conjI)
qed

subsection \<open>The demonstration, from text to node count\<close>

text \<open>
  The tokenizer turns \<^verbatim>\<open>"x + 2 * y"\<close> into the stream Identifier x, Operator +,
  Number 2, Operator *, Identifier y (lemma \<open>tokenize_x_plus_2_times_y\<close>, for the
  patterns spelled in POSIX).

  C2: parsing that token stream yields
  BinaryOp(+, Identifier x, BinaryOp( *, Number 2, Identifier y)), multiplication binding
  tighter than addition, and the coordinator's node count for that tree (1 plus the
  counts of the two children, an absent child counting 0) is 5.
\<close>

theorem parse_x_plus_2_times_y_counts_5:
  "fst (rift_parse parser x_plus_2_times_y) =
     Some (Node AST_BINARY_OP ''+''
             (Some (Node AST_IDENTIFIER ''x'' None None))
             (Some (Node AST_BINARY_OP ''*''
                (Some (Node AST_NUMBER ''2'' None None))
                (Some (Node AST_IDENTIFIER ''y'' None None)))))
   \<and> node_count (snd (rift_coordinate_ast coordinator (fst (rift_parse parser x_plus_2_times_y)))) = 5
   \<and> count_ast_nodes None = 0
   \<and> count_ast_nodes (Some (Node ty v l r)) = 1 + count_ast_nodes l + count_ast_nodes r"
  by (simp add: parse_x_plus_2_times_y x_plus_2_times_y_tree_def rift_coordinate_ast_def)

subsection \<open>Classification\<close>

lemma classify_loop_none:
  "\<forall>st \<in> set sts. \<not> matches_pattern lib (st_pattern st) s \<Longrightarrow> classify_loop lib sts s ty = ty"
  by (induction sts) simp_all

lemma classify_loop_first:
  "\<forall>st \<in> set pre. \<not> matches_pattern lib (st_pattern st) s \<Longrightarrow>
   matches_pattern lib (st_pattern st) s \<Longrightarrow>
   classify_loop lib (pre @ st # post) s ty = st_type st"
  by (induction pre) simp_all

lemma stage0_classify_loop_none:
  "\<forall>(p, q) \<in> set rules. matches_pattern lib p s \<longrightarrow> q \<le> h \<Longrightarrow>
   stage0_classify_loop lib rules i s h tok = tok"
  by (induction rules arbitrary: i) auto

lemma kind_of_index_fixed: "i < 4 \<Longrightarrow> kind_of_index i ty = kind_of_index i TOKEN_UNKNOWN"
  by (simp add: kind_of_index_def)

lemma stage0_classify_loop_best:
  assumes "\<forall>(p, q) \<in> set pre. matches_pattern lib p s \<longrightarrow> q < prio"
    and "matches_pattern lib pat s" and "h < prio" and "i + length pre < 4"
    and "\<forall>(p, q) \<in> set post. matches_pattern lib p s \<longrightarrow> q \<le> prio"
  shows "tok_type (stage0_classify_loop lib (pre @ (pat, prio) # post) i s h tok) =
           kind_of_index (i + length pre) TOKEN_UNKNOWN
         \<and> tok_priority (stage0_classify_loop lib (pre @ (pat, prio) # post) i s h tok) = prio"
  using assms(1,3,4)
proof (induction pre arbitrary: i h tok)
  case Nil
  have "stage0_classify_loop lib ((pat, prio) # post) i s h tok =
        stage0_classify_loop lib post (i + 1) s prio
          (tok\<lparr>tok_type := kind_of_index i (tok_type tok), tok_priority := prio\<rparr>)"
    using assms(2) Nil.prems(2) by simp
  also have "\<dots> = tok\<lparr>tok_type := kind_of_index i (tok_type tok), tok_priority := prio\<rparr>"
    by (rule stage0_classify_loop_none [OF assms(5)])
  finally show ?case using Nil.prems(3) kind_of_index_fixed [of i "tok_type tok"] by simp
next
  case (Cons r pre)
  obtain p q where r: "r = (p, q)" by (cases r)
  from Cons.prems r have pre: "\<forall>(p, q) \<in> set pre. matches_pattern lib p s \<longrightarrow> q < prio"
    and q: "matches_pattern lib p s \<longrightarrow> q < prio"
    and i: "(i + 1) + length pre < 4" by auto
  show ?case
  proof (cases "matches_pattern lib p s \<and> q > h")
    case True
    with q have "q < prio" by simp
    have "stage0_classify_loop lib ((r # pre) @ (pat, prio) # post) i s h tok =
          stage0_classify_loop lib (pre @ (pat, prio) # post) (i + 1) s q
            (tok\<lparr>tok_type := kind_of_index i (tok_type tok), tok_priority := q\<rparr>)"
      using True by (simp add: r)
    with Cons.IH [OF pre \<open>q < prio\<close> i,
        of "tok\<lparr>tok_type := kind_of_index i (tok_type tok), tok_priority := q\<rparr>"]
    show ?thesis by simp
  next
    case False
    have "stage0_classify_loop lib ((r # pre) @ (pat, prio) # post) i s h tok =
          stage0_classify_loop lib (pre @ (pat, prio) # post) (i + 1) s h tok"
      using False by (auto simp add: r)
    with Cons.IH [OF pre Cons.prems(2) i, of tok]
    show ?thesis by simp
  qed
qed

lemma digits_match_5: "matches_pattern posix_lib ''^[0-9]+$'' ''5''"
  by (simp add: posix_eval)

lemma any_char_matches_5: "matches_pattern posix_lib ''^.$'' ''5''"
  by (simp add: posix_eval)

lemma identifier_rejects_5: "\<not> matches_pattern posix_lib ''^[a-zA-Z_][a-zA-Z0-9_]*$'' ''5''"
  by (simp add: posix_eval)

lemma spaces_reject_5: "\<not> matches_pattern posix_lib ''^[ ]+$'' ''5''"
  by (simp add: posix_eval)

text \<open>
  C1, as the claim states it, fails. The states of \<^verbatim>\<open>rift_tokenize\<close> carry no priority
  and the first match wins: with the rules (\<^verbatim>\<open>^[0-9]+$\<close>, Number) and (\<^verbatim>\<open>^.$\<close>,
  Unknown), whose patterns both match \<^verbatim>\<open>5\<close>, the lexeme is classified Number. In the
  stage-bound classifier a matching rule whose priority is not above \<open>-1\<close> never wins:
  with priorities \<open>-2\<close> and \<open>-5\<close> the lexeme stays Unknown with priority 0, although the
  Number rule matches and has the greatest priority.
\<close>

theorem classify_priority_counterexample:
  "matches_pattern posix_lib ''^[0-9]+$'' ''5''
   \<and> matches_pattern posix_lib ''^.$'' ''5''
   \<and> classify_loop posix_lib claimed_rules ''5'' TOKEN_UNKNOWN = TOKEN_NUMBER
   \<and> classify_loop posix_lib claimed_rules ''5'' TOKEN_UNKNOWN \<noteq> TOKEN_UNKNOWN
   \<and> tok_type (stage0_token posix_lib
         [(''^[a-zA-Z_][a-zA-Z0-9_]*$'', - 1), (''^[0-9]+$'', - 2), (''^.$'', - 5), (''^[ ]+$'', - 7)]
         ''5'' 0) = TOKEN_UNKNOWN
   \<and> tok_priority (stage0_token posix_lib
         [(''^[a-zA-Z_][a-zA-Z0-9_]*$'', - 1), (''^[0-9]+$'', - 2), (''^.$'', - 5), (''^[ ]+$'', - 7)]
         ''5'' 0) = 0"
  by (simp add: claimed_rules_def stage0_token_def digits_match_5 any_char_matches_5
                identifier_rejects_5 spaces_reject_5)

text \<open>
  C1, amended. In \<^verbatim>\<open>rift_tokenize\<close> the rules carry no priority: classification selects
  the TokenKind of the first rule, in the supplied rule order, whose pattern matches the
  lexeme, and Unknown when none matches; with the rules (\<^verbatim>\<open>^[0-9]+$\<close>, Number),
  (\<^verbatim>\<open>^.$\<close>, Unknown) the lexeme \<^verbatim>\<open>5\<close> is classified Number. In the stage-bound
  classifier, where a rule's kind is given by its position, classification selects the
  matching rule with the greatest priority, the earliest such rule on a tie, provided
  that priority is above \<open>-1\<close>; when no matching rule has a priority above \<open>-1\<close> the
  result is Unknown with priority 0.
\<close>

theorem classify_first_match_or_priority:
  "((\<forall>st \<in> set sts. \<not> matches_pattern lib (st_pattern st) s) \<longrightarrow>
      classify_loop lib sts s TOKEN_UNKNOWN = TOKEN_UNKNOWN)
   \<and> ((\<forall>x \<in> set before. \<not> matches_pattern lib (st_pattern x) s) \<and>
        matches_pattern lib (st_pattern st) s \<longrightarrow>
      classify_loop lib (before @ st # after) s TOKEN_UNKNOWN = st_type st)
   \<and> ((\<forall>(p, q) \<in> set pre. matches_pattern lib p s \<longrightarrow> q < prio) \<and>
        matches_pattern lib pat s \<and> - 1 < prio \<and> length pre < 4 \<and>
        (\<forall>(p, q) \<in> set post. matches_pattern lib p s \<longrightarrow> q \<le> prio) \<longrightarrow>
      tok_type (stage0_token lib (pre @ (pat, prio) # post) s n) =
        kind_of_index (length pre) TOKEN_UNKNOWN \<and>
      tok_priority (stage0_token lib (pre @ (pat, prio) # post) s n) = prio)
   \<and> ((\<forall>(p, q) \<in> set rules. matches_pattern lib p s \<longrightarrow> q \<le> - 1) \<longrightarrow>
      tok_type (stage0_token lib rules s n) = TOKEN_UNKNOWN \<and>
      tok_priority (stage0_token lib rules s n) = 0)"
proof (intro conjI impI)
  assume "\<forall>st \<in> set sts. \<not> matches_pattern lib (st_pattern st) s"
  then show "classify_loop lib sts s TOKEN_UNKNOWN = TOKEN_UNKNOWN"
    by (rule classify_loop_none)
next
  assume "(\<forall>x \<in> set before. \<not> matches_pattern lib (st_pattern x) s) \<and>
          matches_pattern lib (st_pattern st) s"
  then show "classify_loop lib (before @ st # after) s TOKEN_UNKNOWN = st_type st"
    by (simp add: classify_loop_first)
next
  assume h: "(\<forall>(p, q) \<in> set pre. matches_pattern lib p s \<longrightarrow> q < prio) \<and>
        matches_pattern lib pat s \<and> - 1 < prio \<and> length pre < 4 \<and>
        (\<forall>(p, q) \<in> set post. matches_pattern lib p s \<longrightarrow> q \<le> prio)"
  then have "tok_type (stage0_classify_loop lib (pre @ (pat, prio) # post) 0 s (- 1)
             \<lparr>tok_type = TOKEN_UNKNOWN, tok_value = s, tok_line = 1, tok_column = n + 1,
              tok_priority = 0\<rparr>) = kind_of_index (0 + length pre) TOKEN_UNKNOWN
         \<and> tok_priority (stage0_classify_loop lib (pre @ (pat, prio) # post) 0 s (- 1)
             \<lparr>tok_type = TOKEN_UNKNOWN, tok_value = s, tok_line = 1, tok_column = n + 1,
              tok_priority = 0\<rparr>) = prio"
    by (intro stage0_classify_loop_best) simp_all
  then show "tok_type (stage0_token lib (pre @ (pat, prio) # post) s n) =
        kind_of_index (length pre) TOKEN_UNKNOWN"
    and "tok_priority (stage0_token lib (pre @ (pat, prio) # post) s n) = prio"
    unfolding stage0_token_def by simp_all
next
  assume h: "\<forall>(p, q) \<in> set rules. matches_pattern lib p s \<longrightarrow> q \<le> - 1"
  show "tok_type (stage0_token lib rules s n) = TOKEN_UNKNOWN"
    unfolding stage0_token_def by (simp add: stage0_classify_loop_none [OF h])
  show "tok_priority (stage0_token lib rules s n) = 0"
    unfolding stage0_token_def by (simp add: stage0_classify_loop_none [OF h])
qed

theorem classify_first_match_or_priority_witness:
  "matches_pattern posix_lib ''^[0-9]+$'' ''5''
   \<and> matches_pattern posix_lib ''^.$'' ''5''
   \<and> classify_loop posix_lib claimed_rules ''5'' TOKEN_UNKNOWN = TOKEN_NUMBER
   \<and> classify_loop posix_lib claimed_rules ''ab'' TOKEN_UNKNOWN = TOKEN_UNKNOWN
   \<and> tok_type (stage0_token posix_lib priority_rules ''5'' 0) = TOKEN_OPERATOR
   \<and> tok_priority (stage0_token posix_lib priority_rules ''5'' 0) = 95
   \<and> tok_type (stage0_token posix_lib priority_rules ''ab cd'' 0) = TOKEN_UNKNOWN
   \<and> tok_priority (stage0_token posix_lib priority_rules ''ab cd'' 0) = 0"
proof -
  note t = classify_first_match_or_priority
    [where lib = posix_lib and sts = claimed_rules and s = "''ab''" and before = "[]"
       and st = "\<lparr>st_pattern = ''^[0-9]+$'', st_type = TOKEN_NUMBER, st_is_final = True, st_id = 0\<rparr>"
       and after = "[\<lparr>st_pattern = ''^.$'', st_type = TOKEN_UNKNOWN, st_is_final = True, st_id = 1\<rparr>]"]
  note u = classify_first_match_or_priority
    [where lib = posix_lib and s = "''5''" and before = "[]"
       and st = "\<lparr>st_pattern = ''^[0-9]+$'', st_type = TOKEN_NUMBER, st_is_final = True, st_id = 0\<rparr>"
       and after = "[\<lparr>st_pattern = ''^.$'', st_type = TOKEN_UNKNOWN, st_is_final = True, st_id = 1\<rparr>]"
       and pre = "[(''^[a-zA-Z_][a-zA-Z0-9_]*$'', 100), (''^[0-9]+$'', 90)]"
       and pat = "''^.$''" and prio = 95 and post = "[(''^[ ]+$'', 10)]" and n = 0]
  note v = classify_first_match_or_priority
    [where lib = posix_lib and s = "''ab cd''" and rules = priority_rules and n = 0]
  have m1: "matches_pattern posix_lib ''^[0-9]+$'' ''5''" by (rule digits_match_5)
  have m2: "matches_pattern posix_lib ''^.$'' ''5''" by (rule any_char_matches_5)
  have c1: "classify_loop posix_lib claimed_rules ''5'' TOKEN_UNKNOWN = TOKEN_NUMBER"
    using u [THEN conjunct2, THEN conjunct1] m1 by (simp add: claimed_rules_def)
  have n1: "\<not> matches_pattern posix_lib ''^[0-9]+$'' ''ab''" by (simp add: posix_eval)
  have n2: "\<not> matches_pattern posix_lib ''^.$'' ''ab''" by (simp add: posix_eval)
  have c2: "classify_loop posix_lib claimed_rules ''ab'' TOKEN_UNKNOWN = TOKEN_UNKNOWN"
    using t [THEN conjunct1] n1 n2 by (simp add: claimed_rules_def)
  have s1: "tok_type (stage0_token posix_lib priority_rules ''5'' 0) = TOKEN_OPERATOR
            \<and> tok_priority (stage0_token posix_lib priority_rules ''5'' 0) = 95"
    using u [THEN conjunct2, THEN conjunct2, THEN conjunct1] m1 m2 identifier_rejects_5
          spaces_reject_5
    by (simp add: priority_rules_def kind_of_index_def)
  have r1: "\<not> matches_pattern posix_lib ''^[a-zA-Z_][a-zA-Z0-9_]*$'' ''ab cd''" by (simp add: posix_eval)
  have r2: "\<not> matches_pattern posix_lib ''^[0-9]+$'' ''ab cd''" by (simp add: posix_eval)
  have r3: "\<not> matches_pattern posix_lib ''^.$'' ''ab cd''" by (simp add: posix_eval)
  have r4: "\<not> matches_pattern posix_lib ''^[ ]+$'' ''ab cd''" by (simp add: posix_eval)
  have s2: "tok_type (stage0_token posix_lib priority_rules ''ab cd'' 0) = TOKEN_UNKNOWN
            \<and> tok_priority (stage0_token posix_lib priority_rules ''ab cd'' 0) = 0"
    using v [THEN conjunct2, THEN conjunct2, THEN conjunct2] r1 r2 r3 r4
    by (simp add: priority_rules_def)
  from m1 m2 c1 c2 s1 s2 show ?thesis by (intro conjI) simp_all
qed

subsection \<open>Pattern matching\<close>

text \<open>The matcher against the reading of "matches the entire string".\<close>

lemma full_match_Cons:
  "full_match ((a, d) # r) s \<longleftrightarrow>
     (\<exists>u v. s = u @ v \<and> dup_allows d (length u) \<and> list_all (atom_matches a) u \<and> full_match r v)"
proof
  assume "full_match ((a, d) # r) s"
  then obtain n where n: "n \<le> length s" "dup_allows d n" "list_all (atom_matches a) (take n s)"
      "full_match r (drop n s)"
    unfolding full_match.simps list_ex_iff by (auto simp: less_Suc_eq_le simp del: upt_Suc)
  from n(1) have "length (take n s) = n" by simp
  with n show "\<exists>u v. s = u @ v \<and> dup_allows d (length u) \<and> list_all (atom_matches a) u \<and> full_match r v"
    by (intro exI [of _ "take n s"] exI [of _ "drop n s"]) simp
next
  assume "\<exists>u v. s = u @ v \<and> dup_allows d (length u) \<and> list_all (atom_matches a) u \<and> full_match r v"
  then obtain u v where "s = u @ v" "dup_allows d (length u)" "list_all (atom_matches a) u"
      "full_match r v"
    by blast
  then have "length u \<in> set [0..<Suc (length s)]
             \<and> dup_allows d (length u) \<and> list_all (atom_matches a) (take (length u) s)
             \<and> full_match r (drop (length u) s)"
    by simp
  then show "full_match ((a, d) # r) s"
    unfolding full_match.simps list_ex_iff by blast
qed

lemma match_here_Once:
  "a \<noteq> Bol \<Longrightarrow> a \<noteq> Eol \<Longrightarrow>
   match_here b ((a, Once) # r) s =
     (case s of [] \<Rightarrow> False | c # cs \<Rightarrow> atom_matches a c \<and> match_here False r cs)"
  by (cases a; cases s; simp)

lemma match_here_Opt:
  "a \<noteq> Bol \<Longrightarrow> a \<noteq> Eol \<Longrightarrow>
   match_here b ((a, Opt) # r) s =
     (match_here b r s \<or>
      (case s of [] \<Rightarrow> False | c # cs \<Rightarrow> atom_matches a c \<and> match_here False r cs))"
  by (cases a; cases s; simp)

lemma match_here_Star:
  "a \<noteq> Bol \<Longrightarrow> a \<noteq> Eol \<Longrightarrow>
   match_here b ((a, Star) # r) s =
     (match_here b r s \<or>
      (case s of [] \<Rightarrow> False | c # cs \<Rightarrow> atom_matches a c \<and> match_here False ((a, Star) # r) cs))"
  by (cases a; cases s; simp)

lemma match_here_Plus:
  "a \<noteq> Bol \<Longrightarrow> a \<noteq> Eol \<Longrightarrow>
   match_here b ((a, Plus) # r) s =
     (case s of [] \<Rightarrow> False | c # cs \<Rightarrow> atom_matches a c \<and> match_here False ((a, Star) # r) cs)"
  by (cases a; cases s; simp)

lemma match_here_star_run:
  assumes a: "a \<noteq> Bol" "a \<noteq> Eol" and M: "\<And>b t. match_here b rest t = M t"
  shows "match_here b ((a, Star) # rest) s \<longleftrightarrow>
           (\<exists>u t. s = u @ t \<and> list_all (atom_matches a) u \<and> M t)"
proof (induction s arbitrary: b)
  case Nil
  show ?case by (simp add: match_here_Star [OF a] M)
next
  case (Cons c cs)
  have "match_here b ((a, Star) # rest) (c # cs) \<longleftrightarrow>
          M (c # cs) \<or> (atom_matches a c \<and> (\<exists>u t. cs = u @ t \<and> list_all (atom_matches a) u \<and> M t))"
    by (subst match_here_Star [OF a]) (simp add: M Cons.IH)
  also have "\<dots> \<longleftrightarrow> (\<exists>u t. c # cs = u @ t \<and> list_all (atom_matches a) u \<and> M t)"
  proof
    assume "M (c # cs) \<or> (atom_matches a c \<and> (\<exists>u t. cs = u @ t \<and> list_all (atom_matches a) u \<and> M t))"
    then show "\<exists>u t. c # cs = u @ t \<and> list_all (atom_matches a) u \<and> M t"
    proof
      assume "M (c # cs)"
      then show ?thesis by (intro exI [of _ "[]"] exI [of _ "c # cs"]) simp
    next
      assume "atom_matches a c \<and> (\<exists>u t. cs = u @ t \<and> list_all (atom_matches a) u \<and> M t)"
      then obtain u t where "atom_matches a c" "cs = u @ t" "list_all (atom_matches a) u" "M t"
        by blast
      then show ?thesis by (intro exI [of _ "c # u"] exI [of _ t]) simp
    qed
  next
    assume "\<exists>u t. c # cs = u @ t \<and> list_all (atom_matches a) u \<and> M t"
    then obtain u t where u: "c # cs = u @ t" "list_all (atom_matches a) u" "M t" by blast
    show "M (c # cs) \<or> (atom_matches a c \<and> (\<exists>u t. cs = u @ t \<and> list_all (atom_matches a) u \<and> M t))"
    proof (cases u)
      case Nil
      with u show ?thesis by simp
    next
      case (Cons x xs)
      with u have "x = c" "cs = xs @ t" "atom_matches a c" "list_all (atom_matches a) xs"
        by simp_all
      with u(3) show ?thesis by blast
    qed
  qed
  finally show ?case .
qed

lemma match_here_run:
  assumes a: "a \<noteq> Bol" "a \<noteq> Eol" and M: "\<And>b t. match_here b rest t = M t"
  shows "match_here b ((a, d) # rest) s \<longleftrightarrow>
           (\<exists>u t. s = u @ t \<and> dup_allows d (length u) \<and> list_all (atom_matches a) u \<and> M t)"
proof (cases d)
  case Once
  have "(\<exists>u t. s = u @ t \<and> length u = 1 \<and> list_all (atom_matches a) u \<and> M t) \<longleftrightarrow>
        (\<exists>c cs. s = c # cs \<and> atom_matches a c \<and> M cs)"
  proof
    assume "\<exists>u t. s = u @ t \<and> length u = 1 \<and> list_all (atom_matches a) u \<and> M t"
    then obtain u t where u: "s = u @ t" "length u = 1" "list_all (atom_matches a) u" "M t"
      by blast
    from u(2) obtain c where "u = [c]" by (cases u) auto
    with u show "\<exists>c cs. s = c # cs \<and> atom_matches a c \<and> M cs" by simp
  next
    assume "\<exists>c cs. s = c # cs \<and> atom_matches a c \<and> M cs"
    then obtain c cs where "s = c # cs" "atom_matches a c" "M cs" by blast
    then show "\<exists>u t. s = u @ t \<and> length u = 1 \<and> list_all (atom_matches a) u \<and> M t"
      by (intro exI [of _ "[c]"] exI [of _ cs]) simp
  qed
  with Once show ?thesis
    by (simp add: match_here_Once [OF a] M split: list.splits)
next
  case Opt
  have "(\<exists>u t. s = u @ t \<and> length u \<le> 1 \<and> list_all (atom_matches a) u \<and> M t) \<longleftrightarrow>
        M s \<or> (\<exists>c cs. s = c # cs \<and> atom_matches a c \<and> M cs)"
  proof
    assume "\<exists>u t. s = u @ t \<and> length u \<le> 1 \<and> list_all (atom_matches a) u \<and> M t"
    then obtain u t where u: "s = u @ t" "length u \<le> 1" "list_all (atom_matches a) u" "M t"
      by blast
    show "M s \<or> (\<exists>c cs. s = c # cs \<and> atom_matches a c \<and> M cs)"
    proof (cases u)
      case Nil
      with u show ?thesis by simp
    next
      case (Cons x xs)
      with u have "xs = []" by simp
      with Cons u show ?thesis by simp
    qed
  next
    assume "M s \<or> (\<exists>c cs. s = c # cs \<and> atom_matches a c \<and> M cs)"
    then show "\<exists>u t. s = u @ t \<and> length u \<le> 1 \<and> list_all (atom_matches a) u \<and> M t"
    proof
      assume "M s"
      then show ?thesis by (intro exI [of _ "[]"] exI [of _ s]) simp
    next
      assume "\<exists>c cs. s = c # cs \<and> atom_matches a c \<and> M cs"
      then obtain c cs where "s = c # cs" "atom_matches a c" "M cs" by blast
      then show ?thesis by (intro exI [of _ "[c]"] exI [of _ cs]) simp
    qed
  qed
  with Opt show ?thesis
    by (simp add: match_here_Opt [OF a] M split: list.splits)
next
  case Star
  with match_here_star_run [OF a M, of b s] show ?thesis by simp
next
  case Plus
  have "(\<exists>u t. s = u @ t \<and> 1 \<le> length u \<and> list_all (atom_matches a) u \<and> M t) \<longleftrightarrow>
        (\<exists>c cs. s = c # cs \<and> atom_matches a c
                \<and> (\<exists>u t. cs = u @ t \<and> list_all (atom_matches a) u \<and> M t))"
  proof
    assume "\<exists>u t. s = u @ t \<and> 1 \<le> length u \<and> list_all (atom_matches a) u \<and> M t"
    then obtain u t where u: "s = u @ t" "1 \<le> length u" "list_all (atom_matches a) u" "M t"
      by blast
    then obtain x xs where "u = x # xs" by (cases u) auto
    with u show "\<exists>c cs. s = c # cs \<and> atom_matches a c
                \<and> (\<exists>u t. cs = u @ t \<and> list_all (atom_matches a) u \<and> M t)"
      by auto
  next
    assume "\<exists>c cs. s = c # cs \<and> atom_matches a c
                \<and> (\<exists>u t. cs = u @ t \<and> list_all (atom_matches a) u \<and> M t)"
    then obtain c u t where "s = c # u @ t" "atom_matches a c" "list_all (atom_matches a) u" "M t"
      by blast
    then show "\<exists>u t. s = u @ t \<and> 1 \<le> length u \<and> list_all (atom_matches a) u \<and> M t"
      by (intro exI [of _ "c # u"] exI [of _ t]) simp
  qed
  with Plus show ?thesis
    by (simp add: match_here_Plus [OF a] match_here_star_run [OF a M] split: list.splits)
qed

lemma match_here_full:
  assumes k: "\<And>b t. match_here b k t = K t"
  shows "anchor_free r \<Longrightarrow>
         match_here b (r @ k) s \<longleftrightarrow> (\<exists>u v. s = u @ v \<and> full_match r u \<and> K v)"
proof (induction r arbitrary: b s)
  case Nil
  show ?case by (simp add: k)
next
  case (Cons x r)
  obtain a d where x: "x = (a, d)" by (cases x)
  from Cons.prems x have a: "a \<noteq> Bol" "a \<noteq> Eol" and r: "anchor_free r"
    by (simp_all add: anchor_free_def)
  define M where "M t = (\<exists>u v. t = u @ v \<and> full_match r u \<and> K v)" for t
  have M: "\<And>b t. match_here b (r @ k) t = M t"
    using Cons.IH [OF r] by (simp add: M_def)
  have "match_here b ((a, d) # r @ k) s \<longleftrightarrow>
          (\<exists>u t. s = u @ t \<and> dup_allows d (length u) \<and> list_all (atom_matches a) u \<and> M t)"
    by (rule match_here_run [OF a M])
  also have "\<dots> \<longleftrightarrow> (\<exists>u v. s = u @ v \<and> full_match ((a, d) # r) u \<and> K v)"
  proof
    assume "\<exists>u t. s = u @ t \<and> dup_allows d (length u) \<and> list_all (atom_matches a) u \<and> M t"
    then obtain u1 u2 v where "s = u1 @ u2 @ v" "dup_allows d (length u1)"
        "list_all (atom_matches a) u1" "full_match r u2" "K v"
      unfolding M_def by blast
    then have "s = (u1 @ u2) @ v \<and> full_match ((a, d) # r) (u1 @ u2) \<and> K v"
      unfolding full_match_Cons by auto
    then show "\<exists>u v. s = u @ v \<and> full_match ((a, d) # r) u \<and> K v" by blast
  next
    assume "\<exists>u v. s = u @ v \<and> full_match ((a, d) # r) u \<and> K v"
    then obtain u1 u2 v where "s = (u1 @ u2) @ v" "dup_allows d (length u1)"
        "list_all (atom_matches a) u1" "full_match r u2" "K v"
      unfolding full_match_Cons by blast
    then have "s = u1 @ (u2 @ v) \<and> dup_allows d (length u1) \<and> list_all (atom_matches a) u1
               \<and> M (u2 @ v)"
      unfolding M_def by auto
    then show "\<exists>u t. s = u @ t \<and> dup_allows d (length u) \<and> list_all (atom_matches a) u \<and> M t"
      by blast
  qed
  finally show ?case by (simp add: x)
qed

lemma match_here_prefix:
  "anchor_free r \<Longrightarrow> match_here b r s \<longleftrightarrow> (\<exists>u v. s = u @ v \<and> full_match r u)"
  using match_here_full [of "[]" "\<lambda>t. True" r b s] by simp

lemma match_here_entire:
  "anchor_free r \<Longrightarrow> match_here b (r @ [(Eol, Once)]) s \<longleftrightarrow> full_match r s"
  using match_here_full [of "[(Eol, Once)]" "\<lambda>t. t = []" r b s] by simp

lemma re_search_substring:
  "anchor_free r \<Longrightarrow> re_search r b s \<longleftrightarrow> (\<exists>u v w. s = u @ v @ w \<and> full_match r v)"
proof (induction s arbitrary: b)
  case Nil
  then show ?case by (simp add: match_here_prefix)
next
  case (Cons c cs)
  have "re_search r b (c # cs) \<longleftrightarrow>
          (\<exists>v w. c # cs = v @ w \<and> full_match r v) \<or> (\<exists>u v w. cs = u @ v @ w \<and> full_match r v)"
    using Cons by (simp add: match_here_prefix)
  also have "\<dots> \<longleftrightarrow> (\<exists>u v w. c # cs = u @ v @ w \<and> full_match r v)"
  proof
    assume "(\<exists>v w. c # cs = v @ w \<and> full_match r v) \<or> (\<exists>u v w. cs = u @ v @ w \<and> full_match r v)"
    then show "\<exists>u v w. c # cs = u @ v @ w \<and> full_match r v"
    proof
      assume "\<exists>v w. c # cs = v @ w \<and> full_match r v"
      then obtain v w where "c # cs = [] @ v @ w \<and> full_match r v" by auto
      then show ?thesis by blast
    next
      assume "\<exists>u v w. cs = u @ v @ w \<and> full_match r v"
      then obtain u v w where "c # cs = (c # u) @ v @ w \<and> full_match r v" by auto
      then show ?thesis by blast
    qed
  next
    assume "\<exists>u v w. c # cs = u @ v @ w \<and> full_match r v"
    then obtain u v w where u: "c # cs = u @ v @ w" "full_match r v" by blast
    show "(\<exists>v w. c # cs = v @ w \<and> full_match r v) \<or> (\<exists>u v w. cs = u @ v @ w \<and> full_match r v)"
    proof (cases u)
      case Nil
      with u show ?thesis by auto
    next
      case (Cons x xs)
      with u have "cs = xs @ v @ w" by simp
      with u show ?thesis by blast
    qed
  qed
  finally show ?case .
qed

lemma re_search_bol_later: "\<not> re_search ((Bol, Once) # r) False s"
  by (induction s) simp_all

lemma re_search_bol: "re_search ((Bol, Once) # r) True s \<longleftrightarrow> match_here True r s"
  by (cases s) (simp_all add: re_search_bol_later)

lemma re_search_anchored:
  "anchor_free r \<Longrightarrow> re_search ((Bol, Once) # r @ [(Eol, Once)]) True s \<longleftrightarrow> full_match r s"
  by (simp add: re_search_bol match_here_entire)

lemma full_match_plus:
  "full_match [(a, Plus)] s \<longleftrightarrow> s \<noteq> [] \<and> list_all (atom_matches a) s"
  unfolding full_match_Cons by (auto simp: Suc_le_eq)

lemma full_match_once_star:
  "full_match [(a, Once), (b, Star)] s \<longleftrightarrow>
     s \<noteq> [] \<and> atom_matches a (hd s) \<and> list_all (atom_matches b) (tl s)"
proof
  assume "full_match [(a, Once), (b, Star)] s"
  then have "\<exists>u v. s = u @ v \<and> length u = Suc 0 \<and> list_all (atom_matches a) u
                 \<and> list_all (atom_matches b) v"
    unfolding full_match_Cons by simp
  then obtain u v where "s = u @ v" "length u = Suc 0" "list_all (atom_matches a) u"
      "list_all (atom_matches b) v"
    by blast
  moreover from this obtain c where "u = [c]" by (cases u) auto
  ultimately show "s \<noteq> [] \<and> atom_matches a (hd s) \<and> list_all (atom_matches b) (tl s)"
    by simp
next
  assume "s \<noteq> [] \<and> atom_matches a (hd s) \<and> list_all (atom_matches b) (tl s)"
  then have "s = [hd s] @ tl s \<and> dup_allows Once (length [hd s])
             \<and> list_all (atom_matches a) [hd s]
             \<and> (\<exists>u v. tl s = u @ v \<and> dup_allows Star (length u) \<and> list_all (atom_matches b) u
                       \<and> full_match [] v)"
    by simp
  then show "full_match [(a, Once), (b, Star)] s"
    unfolding full_match_Cons by blast
qed

lemma full_match_literal: "full_match (literal p) s \<longleftrightarrow> s = p"
proof (induction p arbitrary: s)
  case Nil
  show ?case by (simp add: literal_def)
next
  case (Cons c p)
  have "full_match (literal (c # p)) s \<longleftrightarrow>
          (\<exists>u v. s = u @ v \<and> length u = 1 \<and> list_all (atom_matches (Ordinary c)) u \<and> v = p)"
    using Cons.IH unfolding literal_def list.map full_match_Cons by simp
  also have "\<dots> \<longleftrightarrow> s = c # p"
  proof
    assume "\<exists>u v. s = u @ v \<and> length u = 1 \<and> list_all (atom_matches (Ordinary c)) u \<and> v = p"
    then obtain u where u: "s = u @ p" "length u = 1" "list_all (atom_matches (Ordinary c)) u"
      by blast
    from u(2) obtain x where "u = [x]" by (cases u) auto
    with u show "s = c # p" by simp
  next
    assume "s = c # p"
    then have "s = [c] @ p \<and> length [c] = 1 \<and> list_all (atom_matches (Ordinary c)) [c] \<and> p = p"
      by simp
    then show "\<exists>u v. s = u @ v \<and> length u = 1 \<and> list_all (atom_matches (Ordinary c)) u \<and> v = p"
      by blast
  qed
  finally show ?case .
qed

lemma anchor_free_literal: "anchor_free (literal p)"
  by (induction p) (simp_all add: anchor_free_def literal_def)

lemma of_char_codes:
  "(of_char (CHR 0x09) :: nat) = 9" "(of_char (CHR 0x0A) :: nat) = 10"
  "(of_char (CHR 0x0B) :: nat) = 11" "(of_char (CHR 0x0C) :: nat) = 12"
  "(of_char (CHR 0x0D) :: nat) = 13"
  by simp_all

lemma space_range:
  "in_range c (CHR 0x09, CHR 0x0D) \<longleftrightarrow>
     c = CHR 0x09 \<or> c = CHR 0x0A \<or> c = CHR 0x0B \<or> c = CHR 0x0C \<or> c = CHR 0x0D"
proof -
  define n :: nat where "n = of_char c"
  have eq: "c = d \<longleftrightarrow> n = of_char d" for d
    unfolding n_def by (simp only: of_char_eq_iff)
  have "in_range c (CHR 0x09, CHR 0x0D) \<longleftrightarrow> 9 \<le> n \<and> n \<le> 13"
    unfolding in_range.simps of_char_codes n_def ..
  also have "\<dots> \<longleftrightarrow> n = 9 \<or> n = 10 \<or> n = 11 \<or> n = 12 \<or> n = 13"
    by arith
  finally show ?thesis
    unfolding eq of_char_codes .
qed

lemma in_range_single: "in_range c (x, x) \<longleftrightarrow> c = x"
proof -
  have "in_range c (x, x) \<longleftrightarrow> (of_char c :: nat) = of_char x" by auto
  then show ?thesis by (simp only: of_char_eq_iff)
qed

lemma space_atom: "atom_matches (Bracket False space_items) c \<longleftrightarrow> c \<in> set whitespace_chars"
proof -
  have "atom_matches (Bracket False space_items) c \<longleftrightarrow>
          c = CHR '' '' \<or> in_range c (CHR 0x09, CHR 0x0D)"
    unfolding space_items_def by (simp add: in_range_single del: in_range.simps)
  then show ?thesis
    unfolding space_range whitespace_chars_def by (simp del: in_range.simps)
qed

text \<open>
  Compiling \<^verbatim>\<open>^p$\<close>: when \<open>p\<close> compiles to one branch, \<^verbatim>\<open>^p$\<close> compiles to that
  branch between the two anchors.
\<close>

lemma class_opener_Cons2:
  "class_opener (c # d # ds) = (c = CHR ''['' \<and> (d = CHR ''.'' \<or> d = CHR ''='' \<or> d = CHR '':''))"
  by (simp add: class_opener_def)

lemma class_opener_short: "class_opener [] = False" "class_opener [c] = False"
  by (simp_all add: class_opener_def)

lemma class_opener_snoc: "ds \<noteq> [] \<Longrightarrow> class_opener (d # ds @ [x]) = class_opener (d # ds)"
  by (cases ds) (simp_all add: class_opener_Cons2)

lemma parse_items_snoc:
  "parse_items first s acc = Some (items, rest) \<Longrightarrow>
   parse_items first (s @ [x]) acc = Some (items, rest @ [x])"
proof (induction first s acc rule: parse_items.induct)
  case (1 first acc)
  then show ?case by simp
next
  case (2 first c m d ds acc)
  note p = "2.prems"
  have op: "class_opener (c # m # d # ds @ [x]) = class_opener (c # m # d # ds)"
    by (simp add: class_opener_Cons2)
  consider (close) "c = CHR '']'' \<and> \<not> first"
    | (reject) "\<not> (c = CHR '']'' \<and> \<not> first)"
        "class_opener (c # m # d # ds) \<or> (c = CHR ''-'' \<and> \<not> first \<and> m \<noteq> CHR '']'')"
    | (range) "\<not> (c = CHR '']'' \<and> \<not> first)" "\<not> class_opener (c # m # d # ds)"
        "\<not> (c = CHR ''-'' \<and> \<not> first \<and> m \<noteq> CHR '']'')" "m = CHR ''-'' \<and> d \<noteq> CHR '']''"
    | (single) "\<not> (c = CHR '']'' \<and> \<not> first)" "\<not> class_opener (c # m # d # ds)"
        "\<not> (c = CHR ''-'' \<and> \<not> first \<and> m \<noteq> CHR '']'')" "\<not> (m = CHR ''-'' \<and> d \<noteq> CHR '']'')"
    by blast
  then show ?case
  proof cases
    case close
    with p have "items = rev acc" "rest = m # d # ds"
      by simp_all
    with close show ?thesis
      by simp
  next
    case reject
    with p show ?thesis
      by (simp split: if_splits)
  next
    case range
    from p range have no: "\<not> class_opener (d # ds)" and le: "\<not> (of_char d :: nat) < of_char c"
        and q: "parse_items False ds ((c, d) # acc) = Some (items, rest)"
      by (simp_all split: if_splits)
    from q have "ds \<noteq> []" by auto
    with no have no': "\<not> class_opener (d # ds @ [x])"
      by (simp add: class_opener_snoc)
    from "2.IH"(1) [OF range(1) range(2) range(3) range(4) no le q]
    have "parse_items False (ds @ [x]) ((c, d) # acc) = Some (items, rest @ [x])" .
    with range no' le op show ?thesis
      unfolding append_Cons by (subst parse_items.simps(2)) (auto simp del: parse_items.simps)
  next
    case single
    from p single have q: "parse_items False (m # d # ds) ((c, c) # acc) = Some (items, rest)"
      by (simp split: if_splits)
    from "2.IH"(2) [OF single(1) single(2) single(3) single(4) q]
    have "parse_items False ((m # d # ds) @ [x]) ((c, c) # acc) = Some (items, rest @ [x])" .
    with single op show ?thesis
      unfolding append_Cons by (subst parse_items.simps(2)) (auto simp del: parse_items.simps)
  qed
next
  case "3_1"
  then show ?case by (auto simp: class_opener_Cons2 class_opener_short split: if_splits)
next
  case "3_2"
  then show ?case by (auto simp: class_opener_Cons2 class_opener_short split: if_splits)
qed

lemma parse_bracket_snoc:
  "parse_bracket s = Some (atom, rest) \<Longrightarrow> parse_bracket (s @ [x]) = Some (atom, rest @ [x])"
proof (cases s)
  case Nil
  then show "parse_bracket s = Some (atom, rest) \<Longrightarrow> ?thesis"
    by (simp add: parse_bracket_def)
next
  case (Cons c cs)
  assume p: "parse_bracket s = Some (atom, rest)"
  show ?thesis
  proof (cases "c = CHR ''^''")
    case True
    with p Cons obtain items where i: "parse_items True cs [] = Some (items, rest)"
        and a: "atom = Bracket True items"
      by (auto simp: parse_bracket_def simp del: parse_items.simps)
    from parse_items_snoc [OF i, of x] a True Cons show ?thesis
      by (simp add: parse_bracket_def del: parse_items.simps)
  next
    case False
    with p Cons obtain items where i: "parse_items True (c # cs) [] = Some (items, rest)"
        and a: "atom = Bracket False items"
      by (auto simp: parse_bracket_def simp del: parse_items.simps)
    from parse_items_snoc [OF i, of x] a False Cons show ?thesis
      by (simp add: parse_bracket_def del: parse_items.simps)
  qed
qed

lemma parse_ere_dup:
  "c = CHR ''*'' \<or> c = CHR ''+'' \<or> c = CHR ''?'' \<Longrightarrow>
   parse_ere (c # cs) acc =
     (case acc of
        (a, Once) # acc' \<Rightarrow>
          if a = Bol \<or> a = Eol then None else parse_ere cs ((a, dup_of c) # acc')
      | _ \<Rightarrow> None)"
  by (simp only: parse_ere.simps if_True)

lemma parse_ere_bracket:
  "parse_ere (CHR ''['' # cs) acc =
     (case parse_bracket cs of
        None \<Rightarrow> None
      | Some (atom, rest) \<Rightarrow> parse_ere rest ((atom, Once) # acc))"
  by (subst parse_ere.simps) simp

lemma parse_ere_escape:
  "parse_ere (CHR 0x5C # e # es) acc =
     (case escape_atom e of
        None \<Rightarrow> None
      | Some a \<Rightarrow> parse_ere es ((a, Once) # acc))"
  by (subst parse_ere.simps) simp

lemma parse_ere_escape_end: "parse_ere [CHR 0x5C] acc = None"
  by (subst parse_ere.simps) simp

lemma parse_ere_alt:
  "parse_ere (CHR ''|'' # cs) acc =
     (if acc = [] \<or> cs = [] \<or> hd cs = CHR ''|'' then None
      else map_option (Cons (rev acc)) (parse_ere cs []))"
  by (subst parse_ere.simps) simp

lemma parse_ere_group:
  "c = CHR ''('' \<or> c = CHR '')'' \<or> c = CHR ''{'' \<Longrightarrow> parse_ere (c # cs) acc = None"
  by (subst parse_ere.simps) auto

lemma parse_ere_atom:
  "ordinary c \<or> c = CHR ''^'' \<or> c = CHR ''$'' \<or> c = CHR ''.'' \<Longrightarrow>
   parse_ere (c # cs) acc = parse_ere cs ((atom_of c, Once) # acc)"
  by (subst parse_ere.simps) (auto simp: ordinary_def)

lemma char_kinds:
  obtains (dup) "c = CHR ''*'' \<or> c = CHR ''+'' \<or> c = CHR ''?''"
    | (bracket) "c = CHR ''[''"
    | (escape) "c = CHR 0x5C"
    | (alt) "c = CHR ''|''"
    | (group) "c = CHR ''('' \<or> c = CHR '')'' \<or> c = CHR ''{''"
    | (atom) "ordinary c \<or> c = CHR ''^'' \<or> c = CHR ''$'' \<or> c = CHR ''.''"
  unfolding ordinary_def by auto

lemma parse_ere_nonempty: "parse_ere p acc \<noteq> Some []"
proof (induction "length p" arbitrary: p acc rule: less_induct)
  case less
  show ?case
  proof (cases p)
    case Nil
    then show ?thesis by simp
  next
    case (Cons c cs)
    have IH: "parse_ere q a \<noteq> Some []" if "length q < length p" for q a
      using less that by blast
    have cs: "length cs < length p" using Cons by simp
    show ?thesis
    proof (cases c rule: char_kinds)
      case dup
      show ?thesis
        unfolding Cons parse_ere_dup [OF dup] using IH [OF cs]
        by (simp del: parse_ere.simps split: list.splits re_dup.splits)
    next
      case bracket
      show ?thesis
      proof (cases "parse_bracket cs")
        case None
        with bracket Cons show ?thesis by (simp add: parse_ere_bracket del: parse_ere.simps)
      next
        case (Some ar)
        obtain atom rest where ar: "ar = (atom, rest)" by (cases ar)
        from Some ar parse_bracket_shorter [of cs atom rest] Cons
        have "length rest < length p" by simp
        from IH [OF this] Some ar bracket Cons show ?thesis
          by (simp add: parse_ere_bracket del: parse_ere.simps)
      qed
    next
      case escape
      show ?thesis
      proof (cases cs)
        case Nil
        with escape Cons show ?thesis by (simp add: parse_ere_escape_end del: parse_ere.simps)
      next
        case (Cons e es)
        with \<open>p = c # cs\<close> have "length es < length p" by simp
        from IH [OF this] Cons escape \<open>p = c # cs\<close> show ?thesis
          by (simp add: parse_ere_escape del: parse_ere.simps split: option.splits)
      qed
    next
      case alt
      with Cons show ?thesis by (simp add: parse_ere_alt del: parse_ere.simps)
    next
      case group
      with Cons show ?thesis by (simp add: parse_ere_group del: parse_ere.simps)
    next
      case atom
      from IH [OF cs] Cons show ?thesis
        by (simp add: parse_ere_atom [OF atom] del: parse_ere.simps)
    qed
  qed
qed

lemma parse_ere_eol:
  "parse_ere p acc = Some [r] \<Longrightarrow>
   parse_ere (p @ ''$'') (acc @ pre) = Some [rev pre @ r @ [(Eol, Once)]]"
proof (induction "length p" arbitrary: p acc r rule: less_induct)
  case less
  note p = \<open>parse_ere p acc = Some [r]\<close>
  have IH: "parse_ere (q @ ''$'') (a @ pre) = Some [rev pre @ r' @ [(Eol, Once)]]"
    if "length q < length p" "parse_ere q a = Some [r']" for q a r'
    using less.hyps that by blast
  show ?case
  proof (cases p)
    case Nil
    with p have "r = rev acc" by simp
    with Nil show ?thesis by (simp add: atom_of_def)
  next
    case (Cons c cs)
    have cs: "length cs < length p" using Cons by simp
    show ?thesis
    proof (cases c rule: char_kinds)
      case dup
      from p obtain a acc' where acc: "acc = (a, Once) # acc'" and a: "\<not> (a = Bol \<or> a = Eol)"
          and q: "parse_ere cs ((a, dup_of c) # acc') = Some [r]"
        unfolding Cons parse_ere_dup [OF dup]
        by (auto simp del: parse_ere.simps split: list.splits re_dup.splits if_splits)
      from IH [OF cs q] acc a show ?thesis
        unfolding Cons append_Cons parse_ere_dup [OF dup] by (simp del: parse_ere.simps)
    next
      case bracket
      from p obtain atom rest where b: "parse_bracket cs = Some (atom, rest)"
          and q: "parse_ere rest ((atom, Once) # acc) = Some [r]"
        unfolding Cons bracket parse_ere_bracket
        by (auto simp del: parse_ere.simps split: option.splits)
      from parse_bracket_shorter [OF b] Cons have "length rest < length p" by simp
      from IH [OF this q] parse_bracket_snoc [OF b, of "CHR ''$''"] show ?thesis
        unfolding Cons bracket append_Cons parse_ere_bracket by (simp del: parse_ere.simps)
    next
      case escape
      from p obtain e es a where ces: "cs = e # es" and e: "escape_atom e = Some a"
          and q: "parse_ere es ((a, Once) # acc) = Some [r]"
        unfolding Cons escape
        by (cases cs) (auto simp: parse_ere_escape parse_ere_escape_end simp del: parse_ere.simps
                            split: option.splits)
      from ces Cons have "length es < length p" by simp
      from IH [OF this q] e show ?thesis
        unfolding Cons escape ces append_Cons parse_ere_escape by (simp del: parse_ere.simps)
    next
      case alt
      from p parse_ere_nonempty [of cs "[]"] show ?thesis
        unfolding Cons alt parse_ere_alt
        by (auto simp del: parse_ere.simps split: if_splits)
    next
      case group
      with p Cons show ?thesis by (simp add: parse_ere_group del: parse_ere.simps)
    next
      case atom
      from p have q: "parse_ere cs ((atom_of c, Once) # acc) = Some [r]"
        unfolding Cons parse_ere_atom [OF atom] .
      from IH [OF cs q] show ?thesis
        unfolding Cons append_Cons parse_ere_atom [OF atom] by (simp del: parse_ere.simps)
    qed
  qed
qed

lemma parse_ere_anchored:
  assumes "parse_ere p [] = Some [r]"
  shows "parse_ere (''^'' @ p @ ''$'') [] = Some [(Bol, Once) # r @ [(Eol, Once)]]"
proof -
  have "parse_ere (''^'' @ p @ ''$'') [] = parse_ere (p @ ''$'') ([] @ [(Bol, Once)])"
    unfolding append_Cons append_Nil by (subst parse_ere_atom) (simp_all add: atom_of_def del: parse_ere.simps)
  also have "\<dots> = Some [rev [(Bol, Once)] @ r @ [(Eol, Once)]]"
    by (rule parse_ere_eol [OF assms])
  finally show ?thesis by simp
qed

lemma matches_pattern_modelled:
  "parse_ere p [] = Some [r] \<Longrightarrow> matches_pattern posix_lib p s \<longleftrightarrow> re_search r True s"
  by (simp add: matches_pattern_def posix_lib_def posix_regcomp_def posix_regexec_def
                re_search_any_def del: parse_ere.simps)

lemma matches_pattern_substring:
  "parse_ere p [] = Some [r] \<Longrightarrow> anchor_free r \<Longrightarrow>
   matches_pattern posix_lib p s \<longleftrightarrow> (\<exists>u v w. s = u @ v @ w \<and> full_match r v)"
  by (simp add: matches_pattern_modelled re_search_substring del: parse_ere.simps)

lemma matches_pattern_entire:
  "parse_ere p [] = Some [r] \<Longrightarrow> anchor_free r \<Longrightarrow>
   matches_pattern posix_lib (''^'' @ p @ ''$'') s \<longleftrightarrow> full_match r s"
  using matches_pattern_modelled [OF parse_ere_anchored, of p r s]
  by (simp add: re_search_anchored del: parse_ere.simps)

lemma parse_ere_literal_then:
  "\<forall>c \<in> set p. ordinary c \<Longrightarrow> parse_ere (p @ rest) acc = parse_ere rest (rev (literal p) @ acc)"
proof (induction p arbitrary: acc)
  case Nil
  show ?case by (simp add: literal_def)
next
  case (Cons c p)
  then have o: "ordinary c" and atom: "atom_of c = Ordinary c"
    by (auto simp: ordinary_def atom_of_def)
  have "parse_ere ((c # p) @ rest) acc = parse_ere (p @ rest) ((Ordinary c, Once) # acc)"
    unfolding append_Cons using parse_ere_atom [of c "p @ rest" acc] o atom
    by (simp del: parse_ere.simps)
  also have "\<dots> = parse_ere rest (rev (literal p) @ (Ordinary c, Once) # acc)"
    using Cons by simp
  finally show ?case by (simp add: literal_def)
qed

lemma parse_ere_literal: "\<forall>c \<in> set p. ordinary c \<Longrightarrow> parse_ere p [] = Some [literal p]"
  using parse_ere_literal_then [of p "[]" "[]"] by simp

lemma matches_pattern_literal:
  assumes "\<forall>c \<in> set p. ordinary c"
  shows "matches_pattern posix_lib p text \<longleftrightarrow> sublist p text"
proof -
  have "matches_pattern posix_lib p text \<longleftrightarrow>
          (\<exists>u v w. text = u @ v @ w \<and> full_match (literal p) v)"
    by (rule matches_pattern_substring [OF parse_ere_literal [OF assms] anchor_free_literal])
  also have "\<dots> \<longleftrightarrow> (\<exists>u w. text = u @ p @ w)"
    by (simp add: full_match_literal)
  finally show ?thesis by (simp add: sublist_def)
qed

lemma matches_pattern_anchored:
  assumes "\<forall>c \<in> set p. ordinary c"
  shows "matches_pattern posix_lib (''^'' @ p @ ''$'') s \<longleftrightarrow> s = p"
  using matches_pattern_entire [OF parse_ere_literal [OF assms] anchor_free_literal, of s]
  by (simp only: full_match_literal)

lemma abc_ordinary: "\<forall>c \<in> set ''abc''. ordinary c"
  by (simp add: ordinary_def)

lemma abc_in_xabcy: "sublist ''abc'' ''xabcy''"
  unfolding sublist_def by (intro exI [of _ "''x''"] exI [of _ "''y''"]) simp

lemma identifier_pattern_parsed:
  "parse_ere (''[a-zA-Z_]'' @ [backslash] @ ''w*'') [] =
     Some [[(Bracket False [(CHR ''a'', CHR ''z''), (CHR ''A'', CHR ''Z''), (CHR ''_'', CHR ''_'')], Once),
            (Bracket False word_items, Star)]]"
  by (simp add: posix_eval)

lemma whitespace_pattern_parsed:
  "parse_ere ([backslash] @ ''s+'') [] = Some [[(Bracket False space_items, Plus)]]"
  by (simp add: backslash_def escape_atom_def dup_of_def)

lemma identifier_pattern_entire:
  "matches_pattern posix_lib (''^[a-zA-Z_]'' @ [backslash] @ ''w*$'') lexeme \<longleftrightarrow>
     lexeme \<noteq> []
     \<and> atom_matches
          (Bracket False [(CHR ''a'', CHR ''z''), (CHR ''A'', CHR ''Z''), (CHR ''_'', CHR ''_'')])
          (hd lexeme)
     \<and> list_all (atom_matches (Bracket False word_items)) (tl lexeme)"
proof -
  have "matches_pattern posix_lib (''^'' @ (''[a-zA-Z_]'' @ [backslash] @ ''w*'') @ ''$'') lexeme \<longleftrightarrow>
          full_match
            [(Bracket False [(CHR ''a'', CHR ''z''), (CHR ''A'', CHR ''Z''), (CHR ''_'', CHR ''_'')], Once),
             (Bracket False word_items, Star)] lexeme"
    by (rule matches_pattern_entire [OF identifier_pattern_parsed]) (simp add: anchor_free_def)
  then show ?thesis
    unfolding full_match_once_star by (simp del: atom_matches.simps)
qed

lemma whitespace_pattern_entire:
  "matches_pattern posix_lib (''^'' @ [backslash] @ ''s+$'') lexeme \<longleftrightarrow>
     lexeme \<noteq> [] \<and> list_all (\<lambda>c. c \<in> set whitespace_chars) lexeme"
proof -
  have "matches_pattern posix_lib (''^'' @ ([backslash] @ ''s+'') @ ''$'') lexeme \<longleftrightarrow>
          full_match [(Bracket False space_items, Plus)] lexeme"
    by (rule matches_pattern_entire [OF whitespace_pattern_parsed]) (simp add: anchor_free_def)
  then show ?thesis
    unfolding full_match_plus space_atom by simp
qed

text \<open>
  C6, as the claim states it, fails: \<^verbatim>\<open>regexec\<close> searches, and neither
  \<^verbatim>\<open>matches_pattern\<close> nor \<^verbatim>\<open>state_matches\<close> anchors the pattern or looks at the extent
  of the match, so the unanchored pattern \<^verbatim>\<open>abc\<close> matches the lexeme \<^verbatim>\<open>xabcy\<close>.
\<close>

theorem match_full_string_counterexample:
  "matches_pattern posix_lib ''abc'' ''xabcy''
   \<and> state_matches posix_lib
        (Some \<lparr>poc_pattern = ''abc'', poc_is_final = False, poc_id = 1\<rparr>) (Some ''xabcy'')"
proof -
  have "matches_pattern posix_lib ''abc'' ''xabcy''"
    by (simp add: matches_pattern_literal [OF abc_ordinary] abc_in_xabcy)
  then show ?thesis
    by (simp add: state_matches_def matches_pattern_def)
qed

text \<open>
  C6, amended: pattern matching during classification is a search, anchored only where the
  pattern anchors it. \<^verbatim>\<open>matches_pattern\<close> and \<^verbatim>\<open>state_matches\<close> return exactly what
  \<^verbatim>\<open>regexec\<close> reports for the compiled pattern (no match when the pattern does not
  compile or, for \<^verbatim>\<open>state_matches\<close>, when the state or the text is absent), adding
  no anchor of their own. Let \<open>p\<close> be a pattern made only of single-character items
  (ordinary or escaped characters, \<^verbatim>\<open>.\<close>, bracket expressions of characters and ranges,
  \<^verbatim>\<open>\w\<close>, \<^verbatim>\<open>\W\<close>, \<^verbatim>\<open>\s\<close>, \<^verbatim>\<open>\S\<close>) and their \<^verbatim>\<open>*\<close>, \<^verbatim>\<open>+\<close>, \<^verbatim>\<open>?\<close>
  repetitions. With POSIX \<^verbatim>\<open>regexec\<close>, the rule with pattern \<open>p\<close> matches a lexeme
  exactly when some substring of the lexeme matches \<open>p\<close> in full, so \<^verbatim>\<open>abc\<close> matches
  \<^verbatim>\<open>xabcy\<close>; the rule with pattern \<^verbatim>\<open>^p$\<close> matches a lexeme exactly when the entire
  lexeme matches \<open>p\<close> in full, as with the configured \<^verbatim>\<open>^[a-zA-Z_]\w*$\<close> (a letter or
  \<^verbatim>\<open>_\<close>, then word characters) and \<^verbatim>\<open>^\s+$\<close> (one or more spaces of the C locale).
  This is a property of these patterns and not of \<^verbatim>\<open>^\<close> and \<^verbatim>\<open>$\<close> alone: with
  alternation, \<^verbatim>\<open>^a|b$\<close> matches the lexeme \<^verbatim>\<open>xb\<close>.
\<close>

theorem match_is_search:
  "(matches_pattern lib pat text \<longleftrightarrow>
      (\<exists>regex. regcomp lib pat = Some regex \<and> regexec lib regex text = 0))
   \<and> state_matches lib (Some st) (Some text) = matches_pattern lib (poc_pattern st) text
   \<and> \<not> state_matches lib None (Some text)
   \<and> \<not> state_matches lib (Some st) None
   \<and> (parse_ere p [] = Some [r] \<and> anchor_free r \<longrightarrow>
        (matches_pattern posix_lib p lexeme \<longleftrightarrow>
           (\<exists>u v w. lexeme = u @ v @ w \<and> full_match r v))
        \<and> (matches_pattern posix_lib (''^'' @ p @ ''$'') lexeme \<longleftrightarrow> full_match r lexeme))
   \<and> ((\<forall>c \<in> set q. ordinary c) \<longrightarrow>
        (matches_pattern posix_lib q lexeme \<longleftrightarrow> sublist q lexeme)
        \<and> (matches_pattern posix_lib (''^'' @ q @ ''$'') lexeme \<longleftrightarrow> lexeme = q))
   \<and> (matches_pattern posix_lib (''^[a-zA-Z_]'' @ [backslash] @ ''w*$'') lexeme \<longleftrightarrow>
        lexeme \<noteq> []
        \<and> atom_matches
             (Bracket False [(CHR ''a'', CHR ''z''), (CHR ''A'', CHR ''Z''), (CHR ''_'', CHR ''_'')])
             (hd lexeme)
        \<and> list_all (atom_matches (Bracket False word_items)) (tl lexeme))
   \<and> (matches_pattern posix_lib (''^'' @ [backslash] @ ''s+$'') lexeme \<longleftrightarrow>
        lexeme \<noteq> [] \<and> list_all (\<lambda>c. c \<in> set whitespace_chars) lexeme)
   \<and> matches_pattern posix_lib ''^a|b$'' ''xb''"
proof -
  have "matches_pattern lib pat text \<longleftrightarrow>
      (\<exists>regex. regcomp lib pat = Some regex \<and> regexec lib regex text = 0)"
    by (cases "regcomp lib pat") (simp_all add: matches_pattern_def)
  moreover have "state_matches lib (Some st) (Some text) = matches_pattern lib (poc_pattern st) text"
    by (simp add: state_matches_def matches_pattern_def)
  moreover have "\<not> state_matches lib None (Some text)" "\<not> state_matches lib (Some st) None"
    by (simp_all add: state_matches_def)
  moreover have "parse_ere p [] = Some [r] \<and> anchor_free r \<longrightarrow>
        (matches_pattern posix_lib p lexeme \<longleftrightarrow>
           (\<exists>u v w. lexeme = u @ v @ w \<and> full_match r v))
        \<and> (matches_pattern posix_lib (''^'' @ p @ ''$'') lexeme \<longleftrightarrow> full_match r lexeme)"
    using matches_pattern_substring [of p r lexeme] matches_pattern_entire [of p r lexeme]
    by blast
  moreover have "(\<forall>c \<in> set q. ordinary c) \<longrightarrow>
        (matches_pattern posix_lib q lexeme \<longleftrightarrow> sublist q lexeme)
        \<and> (matches_pattern posix_lib (''^'' @ q @ ''$'') lexeme \<longleftrightarrow> lexeme = q)"
    using matches_pattern_literal [of q lexeme] matches_pattern_anchored [of q lexeme] by blast
  moreover note identifier_pattern_entire [of lexeme] whitespace_pattern_entire [of lexeme]
  moreover have "matches_pattern posix_lib ''^a|b$'' ''xb''"
    by (simp add: posix_eval)
  ultimately show ?thesis by (intro conjI)
qed

theorem match_is_search_witness:
  "parse_ere ''[0-9]+'' [] = Some [[(Bracket False [(CHR ''0'', CHR ''9'')], Plus)]]
   \<and> anchor_free [(Bracket False [(CHR ''0'', CHR ''9'')], Plus)]
   \<and> matches_pattern posix_lib ''[0-9]+'' ''x42y''
   \<and> \<not> matches_pattern posix_lib ''^[0-9]+$'' ''x42y''
   \<and> matches_pattern posix_lib ''^[0-9]+$'' ''42''
   \<and> list_all ordinary ''abc''
   \<and> sublist ''abc'' ''xabcy''
   \<and> matches_pattern posix_lib ''abc'' ''xabcy''
   \<and> \<not> matches_pattern posix_lib ''^abc$'' ''xabcy''
   \<and> matches_pattern posix_lib ''^abc$'' ''abc''"
proof -
  note t = match_is_search
    [where p = "''[0-9]+''" and r = "[(Bracket False [(CHR ''0'', CHR ''9'')], Plus)]"
       and lexeme = "''x42y''"]
  note u = match_is_search
    [where p = "''[0-9]+''" and r = "[(Bracket False [(CHR ''0'', CHR ''9'')], Plus)]"
       and lexeme = "''42''"]
  note v = match_is_search [where q = "''abc''" and lexeme = "''abc''"]
  note w = match_is_search [where q = "''abc''" and lexeme = "''xabcy''"]
  have h: "parse_ere ''[0-9]+'' [] = Some [[(Bracket False [(CHR ''0'', CHR ''9'')], Plus)]]
           \<and> anchor_free [(Bracket False [(CHR ''0'', CHR ''9'')], Plus)]"
    by (simp add: posix_eval anchor_free_def)
  have o: "\<forall>c \<in> set ''abc''. ordinary c" by (rule abc_ordinary)
  note t5 = mp [OF t [THEN conjunct2, THEN conjunct2, THEN conjunct2, THEN conjunct2,
                      THEN conjunct1] h]
  note u5 = mp [OF u [THEN conjunct2, THEN conjunct2, THEN conjunct2, THEN conjunct2,
                      THEN conjunct1] h]
  note w6 = mp [OF w [THEN conjunct2, THEN conjunct2, THEN conjunct2, THEN conjunct2,
                      THEN conjunct2, THEN conjunct1] o]
  note v6 = mp [OF v [THEN conjunct2, THEN conjunct2, THEN conjunct2, THEN conjunct2,
                      THEN conjunct2, THEN conjunct1] o]
  have "''x42y'' = ''x'' @ ''42'' @ ''y''
        \<and> full_match [(Bracket False [(CHR ''0'', CHR ''9'')], Plus)] ''42''"
    by (simp add: full_match_plus)
  then have "\<exists>u v w. ''x42y'' = u @ v @ w
               \<and> full_match [(Bracket False [(CHR ''0'', CHR ''9'')], Plus)] v"
    by (intro exI)
  with t5 [THEN conjunct1] have a: "matches_pattern posix_lib ''[0-9]+'' ''x42y''"
    by (rule iffD2)
  have "\<not> full_match [(Bracket False [(CHR ''0'', CHR ''9'')], Plus)] ''x42y''"
    by (simp add: full_match_plus)
  with t5 [THEN conjunct2] have b: "\<not> matches_pattern posix_lib ''^[0-9]+$'' ''x42y''"
    by simp
  have "full_match [(Bracket False [(CHR ''0'', CHR ''9'')], Plus)] ''42''"
    by (simp add: full_match_plus)
  with u5 [THEN conjunct2] have c: "matches_pattern posix_lib ''^[0-9]+$'' ''42''"
    by simp
  have d: "list_all ordinary ''abc''" by (simp add: ordinary_def)
  have e: "sublist ''abc'' ''xabcy''" by (rule abc_in_xabcy)
  from w6 [THEN conjunct1] e have f: "matches_pattern posix_lib ''abc'' ''xabcy''"
    by (rule iffD2)
  from w6 [THEN conjunct2] have g: "\<not> matches_pattern posix_lib ''^abc$'' ''xabcy''"
    by simp
  from v6 [THEN conjunct2] have i: "matches_pattern posix_lib ''^abc$'' ''abc''"
    by simp
  from h a b c d e f g i show ?thesis by (intro conjI) simp_all
qed

end
